theory Spec2Isabelle
  imports Main "HOL-Library.Word"
begin

unbundle bit_operations_syntax

section \<open>The hash table of general/hash.hpp\<close>

text \<open>
  The C++ type \<^verbatim>\<open>int\<close> is a 32-bit two's complement integer: keys, hash values, the
  mask, identifiers, array sizes and the statistics counters are \<open>32 word\<close>, read as
  signed with \<open>sint\<close> and compared with \<open><s\<close> and \<open>\<le>s\<close>. Arithmetic wraps around, as
  the compiled code does (an overflow of \<^verbatim>\<open>int\<close> is undefined behaviour in C++).
  Items live in the free store; a pointer is an address or \<open>None\<close> for \<^verbatim>\<open>NULL\<close>.
\<close>

type_synonym int32 = "32 word"
type_synonym addr = nat

text \<open>
  The ways a call does not return: \<^verbatim>\<open>mfem_error\<close> with its message, which aborts the
  program; a read or write through \<^verbatim>\<open>NULL\<close>, through a pointer to a deleted item or
  outside an array, which is undefined behaviour in C++; and \<^verbatim>\<open>new[]\<close> with a negative
  length.
\<close>

datatype error = MfemError string | InvalidAccess | BadAlloc

subsection \<open>Arrays\<close>

text \<open>
  The class \<^verbatim>\<open>Array<T>\<close> of general/array.hpp is used by the table and is not among its
  sources. An array is a list here, of fewer than \<open>2 ^ 31\<close> elements. The raw arrays
  \<^verbatim>\<open>table\<close> and \<^verbatim>\<open>new_bin\<close> are lists too, indexed in the same way.
\<close>

text \<open>Modelled from the spec: \<^verbatim>\<open>Array::Size()\<close>, missing with array.hpp; the length as an \<^verbatim>\<open>int\<close>.\<close>

definition Size :: "'a list \<Rightarrow> int32" where
  "Size xs = of_nat (length xs)"

text \<open>
  Modelled from the spec: the indices that \<^verbatim>\<open>operator[]\<close> of \<^verbatim>\<open>Array\<close>, missing with
  array.hpp, may be given; it does not check them.
\<close>

definition valid_index :: "'a list \<Rightarrow> int32 \<Rightarrow> bool" where
  "valid_index xs i \<longleftrightarrow> 0 \<le> sint i \<and> nat (sint i) < length xs"

text \<open>Modelled from the spec: the read \<^verbatim>\<open>xs[i]\<close> of an \<^verbatim>\<open>Array\<close>, missing with array.hpp.\<close>

definition at :: "'a list \<Rightarrow> int32 \<Rightarrow> error + 'a" where
  "at xs i = (if valid_index xs i then Inr (xs ! nat (sint i)) else Inl InvalidAccess)"

text \<open>Modelled from the spec: the write \<^verbatim>\<open>xs[i] = v\<close> of an \<^verbatim>\<open>Array\<close>, missing with array.hpp.\<close>

definition store :: "'a list \<Rightarrow> int32 \<Rightarrow> 'a \<Rightarrow> error + 'a list" where
  "store xs i v = (if valid_index xs i then Inr (xs[nat (sint i) := v]) else Inl InvalidAccess)"

text \<open>Modelled from the spec: \<^verbatim>\<open>Array::Append\<close>, missing with array.hpp; it adds at the end.\<close>

definition Append :: "'a list \<Rightarrow> 'a \<Rightarrow> 'a list" where
  "Append xs x = xs @ [x]"

text \<open>
  Modelled from the spec: \<^verbatim>\<open>Array::SetSize(n, v)\<close>, missing with array.hpp; the array gets
  the length \<open>n\<close>, and the new slots hold \<open>v\<close> (the spec: the index array grows as needed,
  the new slots are empty).
\<close>

definition SetSize :: "'a list \<Rightarrow> int32 \<Rightarrow> 'a \<Rightarrow> error + 'a list" where
  "SetSize xs n v = (if sint n < 0 then Inl InvalidAccess
                     else Inr (take (nat (sint n)) xs @ replicate (nat (sint n) - length xs) v))"

subsection \<open>The identifier generator\<close>

text \<open>
  Modelled from the spec: the class \<^verbatim>\<open>IdGenerator\<close> of general/idgenerator.hpp, which is
  missing. The spec asks for \<^verbatim>\<open>allocate() -> id\<close> and \<^verbatim>\<open>release(id)\<close>, small dense
  non-negative identifiers, the first one 0, and reuse only after release. The generator
  keeps the next unused identifier and the released ones.
\<close>

record IdGenerator =
  next_id :: int32
  reusable :: "int32 list"

text \<open>Modelled from the spec: the generator of a new table, missing with idgenerator.hpp.\<close>

definition IdGenerator_init :: IdGenerator where
  "IdGenerator_init = \<lparr>next_id = 0, reusable = []\<rparr>"

text \<open>
  Modelled from the spec: \<^verbatim>\<open>IdGenerator::Get\<close>, missing with idgenerator.hpp; the
  identifier released last if there is one (the spec's scenario: the \<^verbatim>\<open>Get\<close> after the
  \<^verbatim>\<open>Delete\<close> of the item 0 reuses 0), the next unused one otherwise.
\<close>

definition IdGenerator_Get :: "IdGenerator \<Rightarrow> int32 \<times> IdGenerator" where
  "IdGenerator_Get g =
     (if reusable g \<noteq> [] then (last (reusable g), g\<lparr>reusable := butlast (reusable g)\<rparr>)
      else (next_id g, g\<lparr>next_id := next_id g + 1\<rparr>))"

text \<open>Modelled from the spec: \<^verbatim>\<open>IdGenerator::Reuse\<close>, missing with idgenerator.hpp.\<close>

definition IdGenerator_Reuse :: "IdGenerator \<Rightarrow> int32 \<Rightarrow> IdGenerator" where
  "IdGenerator_Reuse g i = g\<lparr>reusable := Append (reusable g) i\<rparr>"

subsection \<open>Items and the table\<close>

text \<open>
  \<^verbatim>\<open>Hashed2\<close> and \<^verbatim>\<open>Hashed4\<close> differ in the stored key only: \<open>(p1, p2)\<close> for the first,
  \<open>(p1, p2, p3)\<close> for the second. The item type is the template parameter of the table,
  here the type parameter \<open>'k\<close> of the key. The fields \<^verbatim>\<open>id\<close> and \<^verbatim>\<open>next\<close> are \<open>id_item\<close>
  and \<open>next_item\<close>.
\<close>

record 'k Hashed =
  id_item :: int32
  key :: 'k
  next_item :: "addr option"

text \<open>
  The table with the free store that holds its items. \<open>brk\<close> is the address the next
  \<^verbatim>\<open>new\<close> returns; \<^verbatim>\<open>delete\<close> removes the cell from the store. The flags of
  \<^verbatim>\<open>new_bin\<close> are \<^verbatim>\<open>char\<close>s that only hold 0 and 1, here booleans. The field \<^verbatim>\<open>mask\<close>
  is \<open>mask_tbl\<close>.
\<close>

record 'k HashTable =
  heap :: "addr \<rightharpoonup> 'k Hashed"
  brk :: addr
  table :: "addr option list"
  mask_tbl :: int32
  id_gen :: IdGenerator
  id_to_item :: "addr option list"
  used_bins :: "int32 list"
  new_bin :: "bool list"
  nqueries :: int32
  ncollisions :: int32

definition hash2 :: "int32 \<Rightarrow> int32 \<times> int32 \<Rightarrow> int32" where
  "hash2 m = (\<lambda>(p1, p2). (984120265 * p1 + 125965121 * p2) AND m)"

definition hash3 :: "int32 \<Rightarrow> int32 \<times> int32 \<times> int32 \<Rightarrow> int32" where
  "hash3 m = (\<lambda>(p1, p2, p3). (984120265 * p1 + 125965121 * p2 + 495698413 * p3) AND m)"

subsection \<open>Construction\<close>

text \<open>
  \<^verbatim>\<open>mfem_error\<close> aborts. A negative length given to \<^verbatim>\<open>new[]\<close> does not return
  either: \<open>BadAlloc\<close>.
\<close>

definition HashTable :: "int32 \<Rightarrow> error + 'k HashTable" where
  "HashTable sz =
     (let m = sz - 1 in
      if sz AND m \<noteq> 0 then Inl (MfemError ''Hash table size must be a power of two.'')
      else if sint sz < 0 then Inl BadAlloc
      else Inr \<lparr>heap = Map.empty, brk = 0,
                table = replicate (nat (sint sz)) None,
                mask_tbl = m,
                id_gen = IdGenerator_init,
                id_to_item = [],
                used_bins = [],
                new_bin = replicate (nat (sint sz)) True,
                nqueries = 0, ncollisions = 0\<rparr>)"

subsection \<open>Sorting the keys\<close>

text \<open>\<open>swap_gt a b\<close> is the statement \<^verbatim>\<open>if (a > b) std::swap(a, b);\<close> on two references.\<close>

definition swap_gt :: "int32 \<Rightarrow> int32 \<Rightarrow> int32 \<times> int32" where
  "swap_gt a b = (if b <s a then (b, a) else (a, b))"

definition sort3 :: "int32 \<Rightarrow> int32 \<Rightarrow> int32 \<Rightarrow> int32 \<times> int32 \<times> int32" where
  "sort3 a b c =
     (let (a, b) = swap_gt a b;
          (a, c) = swap_gt a c;
          (b, c) = swap_gt b c
      in (a, b, c))"

definition sort4 :: "int32 \<Rightarrow> int32 \<Rightarrow> int32 \<Rightarrow> int32 \<Rightarrow> int32 \<times> int32 \<times> int32 \<times> int32" where
  "sort4 a b c d =
     (let (a, b) = swap_gt a b;
          (a, c) = swap_gt a c;
          (a, d) = swap_gt a d;
          (b, c, d) = sort3 b c d
      in (a, b, c, d))"

subsection \<open>Searching a chain\<close>

text \<open>
  The loop of \<^verbatim>\<open>SearchList\<close>: it follows the \<^verbatim>\<open>next\<close> pointers and may run forever on
  a cyclic chain, which is the value \<open>None\<close>. Reading through a pointer to a cell that
  is not in the store is \<open>InvalidAccess\<close>. The last argument is \<^verbatim>\<open>ncollisions\<close>.
\<close>

partial_function (option) SearchList_loop ::
  "(addr \<rightharpoonup> 'k Hashed) \<Rightarrow> addr option \<Rightarrow> 'k \<Rightarrow> int32 \<Rightarrow> (error + addr option \<times> int32) option"
where
  "SearchList_loop h item k nc =
     (case item of
        None \<Rightarrow> Some (Inr (None, nc))
      | Some a \<Rightarrow>
          (case h a of
             None \<Rightarrow> Some (Inl InvalidAccess)
           | Some it \<Rightarrow>
               if key it = k then Some (Inr (Some a, nc))
               else SearchList_loop h (next_item it) k (nc + 1)))"

definition SearchList ::
  "'k HashTable \<Rightarrow> addr option \<Rightarrow> 'k \<Rightarrow> (error + addr option \<times> 'k HashTable) option"
where
  "SearchList t item k =
     (case SearchList_loop (heap t) item k (ncollisions t) of
        None \<Rightarrow> None
      | Some (Inl e) \<Rightarrow> Some (Inl e)
      | Some (Inr (r, nc)) \<Rightarrow> Some (Inr (r, t\<lparr>nqueries := nqueries t + 1, ncollisions := nc\<rparr>)))"

subsection \<open>Peek and Get\<close>

text \<open>
  The two overloads of \<^verbatim>\<open>Peek\<close> and of \<^verbatim>\<open>Get\<close> have the same body after the key is
  put in order; the body is \<open>Peek_key\<close> and \<open>Get_key\<close>, with the hash function of the
  overload as first argument. \<^verbatim>\<open>Peek\<close> is \<^verbatim>\<open>const\<close>, but \<^verbatim>\<open>SearchList\<close> changes the
  \<^verbatim>\<open>mutable\<close> counters, so it returns the table too.
\<close>

definition Peek_key ::
  "(int32 \<Rightarrow> 'k \<Rightarrow> int32) \<Rightarrow> 'k HashTable \<Rightarrow> 'k \<Rightarrow> (error + addr option \<times> 'k HashTable) option"
where
  "Peek_key hf t k =
     (case at (table t) (hf (mask_tbl t) k) of
        Inl e \<Rightarrow> Some (Inl e)
      | Inr item \<Rightarrow> SearchList t item k)"

definition Peek2 ::
  "(int32 \<times> int32) HashTable \<Rightarrow> int32 \<Rightarrow> int32 \<Rightarrow>
     (error + addr option \<times> (int32 \<times> int32) HashTable) option"
where
  "Peek2 t p1 p2 = (let (p1, p2) = swap_gt p1 p2 in Peek_key hash2 t (p1, p2))"

definition Peek4 ::
  "(int32 \<times> int32 \<times> int32) HashTable \<Rightarrow> int32 \<Rightarrow> int32 \<Rightarrow> int32 \<Rightarrow> int32 \<Rightarrow>
     (error + addr option \<times> (int32 \<times> int32 \<times> int32) HashTable) option"
where
  "Peek4 t p1 p2 p3 p4 =
     (let (p1, p2, p3, p4) = sort4 p1 p2 p3 p4 in Peek_key hash3 t (p1, p2, p3))"

text \<open>\<^verbatim>\<open>Peek(int id)\<close> reads the array without a check.\<close>

definition Peek_id :: "'k HashTable \<Rightarrow> int32 \<Rightarrow> error + addr option" where
  "Peek_id t i = at (id_to_item t) i"

definition Get_key ::
  "(int32 \<Rightarrow> 'k \<Rightarrow> int32) \<Rightarrow> 'k HashTable \<Rightarrow> 'k \<Rightarrow> (error + addr \<times> 'k HashTable) option"
where
  "Get_key hf t k =
     (let idx = hf (mask_tbl t) k in
      case at (table t) idx of
        Inl e \<Rightarrow> Some (Inl e)
      | Inr item \<Rightarrow>
          (case SearchList t item k of
             None \<Rightarrow> None
           | Some (Inl e) \<Rightarrow> Some (Inl e)
           | Some (Inr (Some node, t1)) \<Rightarrow> Some (Inr (node, t1))
           | Some (Inr (None, t1)) \<Rightarrow>
               (let (i, g) = IdGenerator_Get (id_gen t1);
                    newitem = brk t1;
                    h = (heap t1)(newitem \<mapsto> \<lparr>id_item = i, key = k, next_item = item\<rparr>)
                in
                case store (table t1) idx (Some newitem) of
                  Inl e \<Rightarrow> Some (Inl e)
                | Inr tb \<Rightarrow>
                    (case at (new_bin t1) idx of
                       Inl e \<Rightarrow> Some (Inl e)
                     | Inr fresh \<Rightarrow>
                         (case (if fresh then store (new_bin t1) idx False else Inr (new_bin t1)) of
                            Inl e \<Rightarrow> Some (Inl e)
                          | Inr nb \<Rightarrow>
                              (case (if Size (id_to_item t1) \<le>s i
                                     then SetSize (id_to_item t1) (i + 1) None
                                     else Inr (id_to_item t1)) of
                                 Inl e \<Rightarrow> Some (Inl e)
                               | Inr ids \<Rightarrow>
                                   (case store ids i (Some newitem) of
                                      Inl e \<Rightarrow> Some (Inl e)
                                    | Inr ids' \<Rightarrow>
                                        Some (Inr (newitem,
                                          t1\<lparr>heap := h, brk := Suc newitem, table := tb,
                                             id_gen := g, id_to_item := ids',
                                             used_bins := (if fresh then Append (used_bins t1) idx
                                                           else used_bins t1),
                                             new_bin := nb\<rparr>)))))))))"

definition Get2 ::
  "(int32 \<times> int32) HashTable \<Rightarrow> int32 \<Rightarrow> int32 \<Rightarrow>
     (error + addr \<times> (int32 \<times> int32) HashTable) option"
where
  "Get2 t p1 p2 = (let (p1, p2) = swap_gt p1 p2 in Get_key hash2 t (p1, p2))"

definition Get4 ::
  "(int32 \<times> int32 \<times> int32) HashTable \<Rightarrow> int32 \<Rightarrow> int32 \<Rightarrow> int32 \<Rightarrow> int32 \<Rightarrow>
     (error + addr \<times> (int32 \<times> int32 \<times> int32) HashTable) option"
where
  "Get4 t p1 p2 p3 p4 =
     (let (p1, p2, p3, p4) = sort4 p1 p2 p3 p4 in Get_key hash3 t (p1, p2, p3))"

subsection \<open>Delete\<close>

text \<open>
  \<^verbatim>\<open>ItemT** ptr\<close> points to a slot of \<^verbatim>\<open>table\<close> or to the \<^verbatim>\<open>next\<close> field of an item.
\<close>

datatype loc = Bin int32 | Next addr

definition load :: "(addr \<rightharpoonup> 'k Hashed) \<Rightarrow> addr option list \<Rightarrow> loc \<Rightarrow> error + addr option" where
  "load h tb ptr =
     (case ptr of
        Bin i \<Rightarrow> at tb i
      | Next c \<Rightarrow> (case h c of None \<Rightarrow> Inl InvalidAccess | Some it \<Rightarrow> Inr (next_item it)))"

definition store_loc ::
  "(addr \<rightharpoonup> 'k Hashed) \<Rightarrow> addr option list \<Rightarrow> loc \<Rightarrow> addr option \<Rightarrow>
     error + (addr \<rightharpoonup> 'k Hashed) \<times> addr option list"
where
  "store_loc h tb ptr v =
     (case ptr of
        Bin i \<Rightarrow> (case store tb i v of Inl e \<Rightarrow> Inl e | Inr tb' \<Rightarrow> Inr (h, tb'))
      | Next c \<Rightarrow>
          (case h c of
             None \<Rightarrow> Inl InvalidAccess
           | Some it \<Rightarrow> Inr (h(c \<mapsto> it\<lparr>next_item := v\<rparr>), tb)))"

partial_function (option) Delete_loop ::
  "(addr \<rightharpoonup> 'k Hashed) \<Rightarrow> addr option list \<Rightarrow> loc \<Rightarrow> addr \<Rightarrow>
     (error + (addr \<rightharpoonup> 'k Hashed) \<times> addr option list) option"
where
  "Delete_loop h tb ptr item =
     (case load h tb ptr of
        Inl e \<Rightarrow> Some (Inl e)
      | Inr None \<Rightarrow> Some (Inl (MfemError ''HashTable<>::Delete: item not found!''))
      | Inr (Some c) \<Rightarrow>
          if c = item then
            (case h item of
               None \<Rightarrow> Some (Inl InvalidAccess)
             | Some it \<Rightarrow> Some (store_loc h tb ptr (next_item it)))
          else Delete_loop h tb (Next c) item)"

text \<open>
  \<^verbatim>\<open>Delete\<close> changes the table in place, so a call that does not return leaves the table
  as it is at that moment: the result of such a call is the error with that table. The loop
  writes once, right before it leaves through \<^verbatim>\<open>goto ok\<close>; the slot of the identifier is
  cleared and the identifier is released after the label only.
\<close>

definition Delete ::
  "(int32 \<Rightarrow> 'k \<Rightarrow> int32) \<Rightarrow> 'k HashTable \<Rightarrow> addr \<Rightarrow>
     (error \<times> 'k HashTable + 'k HashTable) option"
where
  "Delete hf t item =
     (case heap t item of
        None \<Rightarrow> Some (Inl (InvalidAccess, t))
      | Some it \<Rightarrow>
          (case Delete_loop (heap t) (table t) (Bin (hf (mask_tbl t) (key it))) item of
             None \<Rightarrow> None
           | Some (Inl e) \<Rightarrow> Some (Inl (e, t))
           | Some (Inr (h, tb)) \<Rightarrow>
               (case h item of
                  None \<Rightarrow> Some (Inl (InvalidAccess, t\<lparr>heap := h, table := tb\<rparr>))
                | Some it' \<Rightarrow>
                    (case store (id_to_item t) (id_item it') None of
                       Inl e \<Rightarrow> Some (Inl (e, t\<lparr>heap := h, table := tb\<rparr>))
                     | Inr ids \<Rightarrow>
                         Some (Inr (t\<lparr>heap := h(item := None), table := tb,
                                      id_to_item := ids,
                                      id_gen := IdGenerator_Reuse (id_gen t) (id_item it')\<rparr>))))))"

text \<open>\<^verbatim>\<open>Delete(int id)\<close> is \<^verbatim>\<open>Delete(Peek(id))\<close>; \<^verbatim>\<open>Delete(NULL)\<close> reads through \<^verbatim>\<open>NULL\<close>.\<close>

definition Delete_id ::
  "(int32 \<Rightarrow> 'k \<Rightarrow> int32) \<Rightarrow> 'k HashTable \<Rightarrow> int32 \<Rightarrow>
     (error \<times> 'k HashTable + 'k HashTable) option"
where
  "Delete_id hf t i =
     (case Peek_id t i of
        Inl e \<Rightarrow> Some (Inl (e, t))
      | Inr None \<Rightarrow> Some (Inl (InvalidAccess, t))
      | Inr (Some item) \<Rightarrow> Delete hf t item)"

subsection \<open>The iterator\<close>

record Iterator =
  next_bin :: int32
  cur_item :: "addr option"

text \<open>The \<^verbatim>\<open>while\<close> loop at the end of \<^verbatim>\<open>Iterator::next\<close>.\<close>

function next_loop :: "addr option list \<Rightarrow> int32 list \<Rightarrow> Iterator \<Rightarrow> error + Iterator" where
  "next_loop tb ub it =
     (if cur_item it = None \<and> next_bin it <s Size ub then
        (case at ub (next_bin it) of
           Inl e \<Rightarrow> Inl e
         | Inr b \<Rightarrow>
             (case at tb b of
                Inl e \<Rightarrow> Inl e
              | Inr c \<Rightarrow> next_loop tb ub \<lparr>next_bin = next_bin it + 1, cur_item = c\<rparr>))
      else Inr it)"
  by pat_completeness auto
termination
proof (relation "measure (\<lambda>(tb, ub, it). nat (sint (Size ub) - sint (next_bin it)))")
  show "wf (measure (\<lambda>(tb, ub, it). nat (sint (Size ub) - sint (next_bin it))))"
    by simp
next
  fix tb :: "addr option list" and ub :: "int32 list" and it :: Iterator and b c
  assume "cur_item it = None \<and> next_bin it <s Size ub"
  then have lt: "sint (next_bin it) < sint (Size ub)"
    by (simp add: word_sless_alt)
  moreover have "sint (Size ub) < 2 ^ 31"
    using sint_lt [of "Size ub"] by simp
  moreover have "- (2 ^ 31) \<le> sint (next_bin it)"
    using sint_ge [of "next_bin it"] by simp
  ultimately have "- (2 ^ 31) \<le> sint (next_bin it) + 1" "sint (next_bin it) + 1 < 2 ^ 31"
    by simp_all
  then have "sint (next_bin it + 1) = sint (next_bin it) + 1"
    by (simp add: sint_word_ariths signed_take_bit_int_eq_self)
  with lt show "((tb, ub, \<lparr>next_bin = next_bin it + 1, cur_item = c\<rparr>), tb, ub, it)
          \<in> measure (\<lambda>(tb, ub, it). nat (sint (Size ub) - sint (next_bin it)))"
    by simp
qed

declare next_loop.simps [simp del]

definition Iterator_next :: "'k HashTable \<Rightarrow> Iterator \<Rightarrow> error + Iterator" where
  "Iterator_next t it =
     (if Size (used_bins t) \<le>s next_bin it then Inr (it\<lparr>cur_item := None\<rparr>)
      else
        (case cur_item it of
           None \<Rightarrow> next_loop (table t) (used_bins t) it
         | Some c \<Rightarrow>
             (case heap t c of
                None \<Rightarrow> Inl InvalidAccess
              | Some x \<Rightarrow> next_loop (table t) (used_bins t) (it\<lparr>cur_item := next_item x\<rparr>))))"

text \<open>The constructor \<^verbatim>\<open>Iterator(HashTable<ItemT>& table)\<close>.\<close>

definition Iterator_new :: "'k HashTable \<Rightarrow> error + Iterator" where
  "Iterator_new t = Iterator_next t \<lparr>next_bin = 0, cur_item = None\<rparr>"

text \<open>
  A full traversal, \<^verbatim>\<open>for (Iterator it(table); it; ++it)\<close>, as the destructor writes it:
  the items the iterator stops at, in order.
\<close>

partial_function (option) visit_from ::
  "'k HashTable \<Rightarrow> Iterator \<Rightarrow> addr list \<Rightarrow> (error + addr list) option"
where
  "visit_from t it acc =
     (case cur_item it of
        None \<Rightarrow> Some (Inr (rev acc))
      | Some a \<Rightarrow>
          (case Iterator_next t it of
             Inl e \<Rightarrow> Some (Inl e)
           | Inr it' \<Rightarrow> visit_from t it' (a # acc)))"

definition visit_all :: "'k HashTable \<Rightarrow> (error + addr list) option" where
  "visit_all t =
     (case Iterator_new t of
        Inl e \<Rightarrow> Some (Inl e)
      | Inr it \<Rightarrow> visit_from t it [])"

subsection \<open>Destruction\<close>



subsection \<open>Well-formed tables\<close>

text \<open>
  \<open>is_chain h p as\<close>: following the \<^verbatim>\<open>next\<close> pointers from \<open>p\<close> visits the cells at the
  addresses \<open>as\<close>, all in the store, and ends at \<^verbatim>\<open>NULL\<close>.
\<close>

fun is_chain :: "(addr \<rightharpoonup> 'k Hashed) \<Rightarrow> addr option \<Rightarrow> addr list \<Rightarrow> bool" where
  "is_chain h p [] = (p = None)"
| "is_chain h p (a # as) =
     (p = Some a \<and> (case h a of None \<Rightarrow> False | Some it \<Rightarrow> is_chain h (next_item it) as))"

definition key_at :: "(addr \<rightharpoonup> 'k Hashed) \<Rightarrow> addr \<Rightarrow> 'k option" where
  "key_at h a = map_option key (h a)"

definition id_at :: "(addr \<rightharpoonup> 'k Hashed) \<Rightarrow> addr \<Rightarrow> int32 option" where
  "id_at h a = map_option id_item (h a)"

text \<open>
  \<open>buckets hf t bk\<close>: the chain of bucket \<open>i\<close> holds the items \<open>bk i\<close>, with distinct
  keys that hash to \<open>i\<close>, and every item of the store is in the chain of its bucket.
\<close>

definition buckets :: "(int32 \<Rightarrow> 'k \<Rightarrow> int32) \<Rightarrow> 'k HashTable \<Rightarrow> (nat \<Rightarrow> addr list) \<Rightarrow> bool" where
  "buckets hf t bk \<longleftrightarrow>
     (\<forall>i < length (table t).
        is_chain (heap t) (table t ! i) (bk i) \<and>
        distinct (map (key_at (heap t)) (bk i)) \<and>
        (\<forall>a \<in> set (bk i). \<forall>it. heap t a = Some it \<longrightarrow>
           nat (sint (hf (mask_tbl t) (key it))) = i)) \<and>
     (\<forall>a it. heap t a = Some it \<longrightarrow>
        valid_index (table t) (hf (mask_tbl t) (key it)) \<and>
        a \<in> set (bk (nat (sint (hf (mask_tbl t) (key it))))))"

text \<open>
  \<open>ids_ok t\<close>: the slot of a live item's identifier points to the item, a slot that is
  set points to a live item with that identifier, and the generator knows which
  identifiers are in use.
\<close>

definition ids_ok :: "'k HashTable \<Rightarrow> bool" where
  "ids_ok t \<longleftrightarrow>
     (\<forall>a it. heap t a = Some it \<longrightarrow>
        valid_index (id_to_item t) (id_item it) \<and>
        id_to_item t ! nat (sint (id_item it)) = Some a) \<and>
     (\<forall>i < length (id_to_item t). \<forall>a. id_to_item t ! i = Some a \<longrightarrow>
        (\<exists>it. heap t a = Some it \<and> sint (id_item it) = int i)) \<and>
     0 \<le> sint (next_id (id_gen t)) \<and>
     length (id_to_item t) \<le> nat (sint (next_id (id_gen t))) \<and>
     distinct (reusable (id_gen t)) \<and>
     (\<forall>r \<in> set (reusable (id_gen t)).
        0 \<le> sint r \<and> sint r < sint (next_id (id_gen t)) \<and>
        (\<forall>a it. heap t a = Some it \<longrightarrow> id_item it \<noteq> r))"

text \<open>\<open>bins_ok t\<close>: \<^verbatim>\<open>used_bins\<close> lists, once each, the buckets whose flag is off.\<close>

definition bins_ok :: "'k HashTable \<Rightarrow> bool" where
  "bins_ok t \<longleftrightarrow>
     length (table t) < 2 ^ 31 \<and>
     length (new_bin t) = length (table t) \<and>
     distinct (used_bins t) \<and>
     (\<forall>b \<in> set (used_bins t). valid_index (table t) b) \<and>
     (\<forall>i < length (table t). new_bin t ! i \<longleftrightarrow> (\<forall>b \<in> set (used_bins t). nat (sint b) \<noteq> i)) \<and>
     (\<forall>i < length (table t). table t ! i \<noteq> None \<longrightarrow> \<not> new_bin t ! i)"

definition wf_table :: "(int32 \<Rightarrow> 'k \<Rightarrow> int32) \<Rightarrow> 'k HashTable \<Rightarrow> bool" where
  "wf_table hf t \<longleftrightarrow>
     (\<exists>bk. buckets hf t bk) \<and> ids_ok t \<and> bins_ok t \<and> (\<forall>a. heap t a \<noteq> None \<longrightarrow> a < brk t)"

text \<open>
  The tables a program can reach: from the constructor, by \<^verbatim>\<open>Get\<close>, \<^verbatim>\<open>Peek\<close> and
  \<^verbatim>\<open>Delete\<close> calls that return. \<^verbatim>\<open>Get(p1,p2)\<close> is \<open>Get_key hash2\<close> at the ordered key,
  \<^verbatim>\<open>Get(p1,p2,p3,p4)\<close> is \<open>Get_key hash3\<close>.
\<close>

inductive reach :: "(int32 \<Rightarrow> 'k \<Rightarrow> int32) \<Rightarrow> 'k HashTable \<Rightarrow> bool"
  for hf :: "int32 \<Rightarrow> 'k \<Rightarrow> int32"
where
  reach_new: "HashTable sz = Inr t \<Longrightarrow> reach hf t"
| reach_Get: "reach hf t \<Longrightarrow> Get_key hf t k = Some (Inr (a, t')) \<Longrightarrow> reach hf t'"
| reach_Peek: "reach hf t \<Longrightarrow> Peek_key hf t k = Some (Inr (r, t')) \<Longrightarrow> reach hf t'"
| reach_Delete: "reach hf t \<Longrightarrow> Delete hf t a = Some (Inr t') \<Longrightarrow> reach hf t'"

subsection \<open>The operations on a well-formed table\<close>

text \<open>What the search loop returns on a chain: the item found and the number of steps.\<close>

definition found :: "(addr \<rightharpoonup> 'k Hashed) \<Rightarrow> 'k \<Rightarrow> addr list \<Rightarrow> addr option" where
  "found h k as = find (\<lambda>a. key_at h a = Some k) as"

definition advances :: "(addr \<rightharpoonup> 'k Hashed) \<Rightarrow> 'k \<Rightarrow> addr list \<Rightarrow> nat" where
  "advances h k as = length (takeWhile (\<lambda>a. key_at h a \<noteq> Some k) as)"

text \<open>The generator has no identifier left: the next one would be \<open>2 ^ 31\<close>.\<close>

definition ids_exhausted :: "'k HashTable \<Rightarrow> bool" where
  "ids_exhausted t \<longleftrightarrow> reusable (id_gen t) = [] \<and> sint (next_id (id_gen t)) = 2 ^ 31 - 1"

text \<open>The table after \<^verbatim>\<open>Get\<close> has made a new item for the key \<open>k\<close>.\<close>

definition created :: "(int32 \<Rightarrow> 'k \<Rightarrow> int32) \<Rightarrow> 'k HashTable \<Rightarrow> 'k \<Rightarrow> int32 \<Rightarrow> 'k HashTable" where
  "created hf t k nc =
     (let idx = hf (mask_tbl t) k;
          n = nat (sint idx);
          (i, g) = IdGenerator_Get (id_gen t)
      in t\<lparr>heap := (heap t)(brk t \<mapsto> \<lparr>id_item = i, key = k, next_item = table t ! n\<rparr>),
            brk := Suc (brk t),
            table := (table t)[n := Some (brk t)],
            id_gen := g,
            id_to_item :=
              (id_to_item t @ replicate (Suc (nat (sint i)) - length (id_to_item t)) None)
                [nat (sint i) := Some (brk t)],
            used_bins := (if new_bin t ! n then used_bins t @ [idx] else used_bins t),
            new_bin := (new_bin t)[n := False],
            nqueries := nqueries t + 1,
            ncollisions := nc\<rparr>)"

subsection \<open>Example tables\<close>

text \<open>A table made with size 0, and the tables of size 1 after \<^verbatim>\<open>Get(1,2)\<close> and \<^verbatim>\<open>Get(3,4)\<close>.\<close>

definition ex_size0 :: "(int32 \<times> int32) HashTable" where
  "ex_size0 = \<lparr>heap = Map.empty, brk = 0, table = [], mask_tbl = - 1,
     id_gen = \<lparr>next_id = 0, reusable = []\<rparr>,
     id_to_item = [], used_bins = [], new_bin = [], nqueries = 0, ncollisions = 0\<rparr>"

definition ex_empty1 :: "(int32 \<times> int32) HashTable" where
  "ex_empty1 = \<lparr>heap = Map.empty, brk = 0, table = [None], mask_tbl = 0,
     id_gen = \<lparr>next_id = 0, reusable = []\<rparr>,
     id_to_item = [], used_bins = [], new_bin = [True], nqueries = 0, ncollisions = 0\<rparr>"

definition ex_one1 :: "(int32 \<times> int32) HashTable" where
  "ex_one1 = \<lparr>heap = [0 \<mapsto> \<lparr>id_item = 0, key = (1, 2), next_item = None\<rparr>],
     brk = 1, table = [Some 0], mask_tbl = 0,
     id_gen = \<lparr>next_id = 1, reusable = []\<rparr>,
     id_to_item = [Some 0], used_bins = [0], new_bin = [False],
     nqueries = 1, ncollisions = 0\<rparr>"

definition ex_two1 :: "(int32 \<times> int32) HashTable" where
  "ex_two1 = \<lparr>heap = [0 \<mapsto> \<lparr>id_item = 0, key = (1, 2), next_item = None\<rparr>,
                       1 \<mapsto> \<lparr>id_item = 1, key = (3, 4), next_item = Some 0\<rparr>],
     brk = 2, table = [Some 1], mask_tbl = 0,
     id_gen = \<lparr>next_id = 2, reusable = []\<rparr>,
     id_to_item = [Some 0, Some 1], used_bins = [0], new_bin = [False],
     nqueries = 2, ncollisions = 1\<rparr>"


definition canon4 :: "int32 \<Rightarrow> int32 \<Rightarrow> int32 \<Rightarrow> int32 \<Rightarrow> int32 \<times> int32 \<times> int32" where
  "canon4 p1 p2 p3 p4 = (let (a, b, c, d) = sort4 p1 p2 p3 p4 in (a, b, c))"

text \<open>Tables of size 1 for items with four keys.\<close>

definition ex4_empty1 :: "(int32 \<times> int32 \<times> int32) HashTable" where
  "ex4_empty1 = \<lparr>heap = Map.empty, brk = 0, table = [None], mask_tbl = 0,
     id_gen = \<lparr>next_id = 0, reusable = []\<rparr>,
     id_to_item = [], used_bins = [], new_bin = [True], nqueries = 0, ncollisions = 0\<rparr>"

definition ex4_one1 :: "(int32 \<times> int32 \<times> int32) HashTable" where
  "ex4_one1 = \<lparr>heap = [0 \<mapsto> \<lparr>id_item = 0, key = (2, 5, 7), next_item = None\<rparr>],
     brk = 1, table = [Some 0], mask_tbl = 0,
     id_gen = \<lparr>next_id = 1, reusable = []\<rparr>,
     id_to_item = [Some 0], used_bins = [0], new_bin = [False],
     nqueries = 1, ncollisions = 0\<rparr>"


text \<open>More example tables: after \<^verbatim>\<open>Delete\<close>, after the \<^verbatim>\<open>Get\<close> that follows it.\<close>

definition ex_deleted1 :: "(int32 \<times> int32) HashTable" where
  "ex_deleted1 = \<lparr>heap = [1 \<mapsto> \<lparr>id_item = 1, key = (3, 4), next_item = None\<rparr>],
     brk = 2, table = [Some 1], mask_tbl = 0,
     id_gen = \<lparr>next_id = 2, reusable = [0]\<rparr>,
     id_to_item = [None, Some 1], used_bins = [0], new_bin = [False],
     nqueries = 2, ncollisions = 1\<rparr>"

definition ex4_deleted1 :: "(int32 \<times> int32 \<times> int32) HashTable" where
  "ex4_deleted1 = \<lparr>heap = Map.empty,
     brk = 1, table = [None], mask_tbl = 0,
     id_gen = \<lparr>next_id = 1, reusable = [0]\<rparr>,
     id_to_item = [None], used_bins = [0], new_bin = [False],
     nqueries = 1, ncollisions = 0\<rparr>"

definition ex_reused1 :: "(int32 \<times> int32) HashTable" where
  "ex_reused1 = \<lparr>heap = [1 \<mapsto> \<lparr>id_item = 1, key = (3, 4), next_item = None\<rparr>,
                         2 \<mapsto> \<lparr>id_item = 0, key = (5, 6), next_item = Some 1\<rparr>],
     brk = 3, table = [Some 2], mask_tbl = 0,
     id_gen = \<lparr>next_id = 2, reusable = []\<rparr>,
     id_to_item = [Some 2, Some 1], used_bins = [0], new_bin = [False],
     nqueries = 3, ncollisions = 2\<rparr>"

text \<open>
  The table of two items with a third cell in the store that no chain holds; the slot 0 of
  \<^verbatim>\<open>id_to_item\<close> points to it.
\<close>

definition ex_foreign1 :: "(int32 \<times> int32) HashTable" where
  "ex_foreign1 = \<lparr>heap = [0 \<mapsto> \<lparr>id_item = 0, key = (1, 2), next_item = None\<rparr>,
                          1 \<mapsto> \<lparr>id_item = 1, key = (3, 4), next_item = Some 0\<rparr>,
                          7 \<mapsto> \<lparr>id_item = 0, key = (1, 2), next_item = None\<rparr>],
     brk = 2, table = [Some 1], mask_tbl = 0,
     id_gen = \<lparr>next_id = 2, reusable = []\<rparr>,
     id_to_item = [Some 7, Some 1], used_bins = [0], new_bin = [False],
     nqueries = 2, ncollisions = 1\<rparr>"




section \<open>Properties\<close>

lemmas array_defs = Size_def valid_index_def at_def store_def Append_def SetSize_def

lemmas get_eval = Get2_def Get4_def sort4_def sort3_def swap_gt_def Get_key_def hash2_def
  hash3_def SearchList_def SearchList_loop.simps IdGenerator_Get_def array_defs
  word_sless_alt word_sle_eq

lemmas iter_eval = visit_all_def visit_from.simps Iterator_new_def Iterator_next_def
  next_loop.simps

subsection \<open>Chains\<close>

lemma chain_in_heap: "is_chain h p as \<Longrightarrow> a \<in> set as \<Longrightarrow> \<exists>it. h a = Some it"
  by (induction as arbitrary: p) (auto split: option.splits)

lemma chain_frame: "is_chain h p as \<Longrightarrow> (\<forall>a \<in> set as. h' a = h a) \<Longrightarrow> is_chain h' p as"
  by (induction as arbitrary: p) (auto split: option.splits)


lemma SearchList_loop_chain:
  "is_chain h p as \<Longrightarrow>
   SearchList_loop h p k nc = Some (Inr (found h k as, nc + of_nat (advances h k as)))"
proof (induction as arbitrary: p nc)
  case Nil
  then show ?case
    by (simp add: SearchList_loop.simps found_def advances_def)
next
  case (Cons a as)
  then obtain it where it: "p = Some a" "h a = Some it" "is_chain h (next_item it) as"
    by (auto split: option.splits)
  show ?case
  proof (cases "key it = k")
    case True
    with it show ?thesis
      by (subst SearchList_loop.simps) (simp add: found_def advances_def key_at_def)
  next
    case False
    with it Cons.IH [OF it(3), of "nc + 1"] show ?thesis
      by (subst SearchList_loop.simps) (simp add: found_def advances_def key_at_def add.assoc)
  qed
qed

subsection \<open>The loop of Delete\<close>

lemma Delete_loop_absent:
  "load h tb ptr = Inr p \<Longrightarrow> is_chain h p as \<Longrightarrow> item \<notin> set as \<Longrightarrow>
   Delete_loop h tb ptr item = Some (Inl (MfemError ''HashTable<>::Delete: item not found!''))"
proof (induction as arbitrary: ptr p)
  case Nil
  then show ?case
    by (subst Delete_loop.simps) simp
next
  case (Cons a as)
  then obtain it where it: "p = Some a" "h a = Some it" "is_chain h (next_item it) as"
    by (auto split: option.splits)
  have "load h tb (Next a) = Inr (next_item it)"
    using it by (simp add: load_def)
  from Cons.IH [OF this it(3)] Cons.prems it show ?case
    by (subst Delete_loop.simps) simp
qed

lemma Delete_loop_present:
  "load h tb ptr = Inr p \<Longrightarrow> is_chain h p (xs @ item # ys) \<Longrightarrow> item \<notin> set xs \<Longrightarrow>
   h item = Some it \<Longrightarrow>
   Delete_loop h tb ptr item =
     Some (store_loc h tb (if xs = [] then ptr else Next (last xs)) (next_item it))"
proof (induction xs arbitrary: ptr p)
  case Nil
  then show ?case
    by (subst Delete_loop.simps) simp
next
  case (Cons x xs)
  then obtain itx where itx: "p = Some x" "h x = Some itx" "is_chain h (next_item itx) (xs @ item # ys)"
    by (auto split: option.splits)
  have "load h tb (Next x) = Inr (next_item itx)"
    using itx by (simp add: load_def)
  from Cons.IH [OF this itx(3)] Cons.prems itx show ?case
    by (subst Delete_loop.simps) simp
qed

lemma chain_unlink_head:
  "is_chain h p (a # ys) \<Longrightarrow> a \<notin> set ys \<Longrightarrow> h a = Some it \<Longrightarrow>
   is_chain (h(a := None)) (next_item it) ys"
  by (auto intro: chain_frame)

lemma chain_unlink_inner:
  "is_chain h p (xs @ a # ys) \<Longrightarrow> distinct (xs @ a # ys) \<Longrightarrow> xs \<noteq> [] \<Longrightarrow>
   h a = Some it \<Longrightarrow> h (last xs) = Some itl \<Longrightarrow>
   is_chain ((h(last xs \<mapsto> itl\<lparr>next_item := next_item it\<rparr>))(a := None)) p (xs @ ys)"
proof (induction xs arbitrary: p)
  case Nil
  then show ?case by simp
next
  case (Cons x xs)
  let ?h = "(h(last (x # xs) \<mapsto> itl\<lparr>next_item := next_item it\<rparr>))(a := None)"
  from Cons.prems obtain itx where itx:
    "p = Some x" "h x = Some itx" "is_chain h (next_item itx) (xs @ a # ys)"
    by (auto split: option.splits)
  show ?case
  proof (cases "xs = []")
    case True
    with itx Cons.prems have "next_item itx = Some a" "is_chain h (next_item it) ys" "itl = itx"
      by (auto split: option.splits)
    moreover from Cons.prems True have "\<forall>b \<in> set ys. ?h b = h b"
      by auto
    ultimately show ?thesis
      using True itx Cons.prems by (auto intro: chain_frame)
  next
    case False
    then have l: "last (x # xs) = last xs"
      by simp
    from False Cons.prems have ne: "x \<noteq> last xs" "x \<noteq> a"
      by auto
    have "is_chain ((h(last xs \<mapsto> itl\<lparr>next_item := next_item it\<rparr>))(a := None))
            (next_item itx) (xs @ ys)"
    proof (rule Cons.IH)
      show "is_chain h (next_item itx) (xs @ a # ys)" by (rule itx(3))
      show "distinct (xs @ a # ys)" using Cons.prems(2) by simp
      show "xs \<noteq> []" by (rule False)
      show "h a = Some it" by (rule Cons.prems(4))
      show "h (last xs) = Some itl" using Cons.prems(5) l by simp
    qed
    moreover have "((h(last xs \<mapsto> itl\<lparr>next_item := next_item it\<rparr>))(a := None)) x = Some itx"
      using ne itx by simp
    ultimately show ?thesis
      unfolding l using itx(1) by (simp del: fun_upd_apply)
  qed
qed

lemma Delete_effect:
  assumes bk: "buckets hf t bk" and ids: "ids_ok t" and live: "heap t a = Some it"
  defines "n \<equiv> nat (sint (hf (mask_tbl t) (key it)))"
  shows "\<exists>xs ys h' tb'.
      bk n = xs @ a # ys \<and>
      Delete hf t a = Some (Inr (t\<lparr>heap := h', table := tb',
          id_to_item := (id_to_item t)[nat (sint (id_item it)) := None],
          id_gen := IdGenerator_Reuse (id_gen t) (id_item it)\<rparr>)) \<and>
      h' a = None \<and>
      (\<forall>c. c \<noteq> a \<longrightarrow> key_at h' c = key_at (heap t) c \<and> id_at h' c = id_at (heap t) c) \<and>
      (\<forall>c. c \<notin> set (bk n) \<longrightarrow> h' c = heap t c) \<and>
      length tb' = length (table t) \<and>
      (\<forall>j < length tb'. j \<noteq> n \<longrightarrow> tb' ! j = table t ! j) \<and>
      is_chain h' (tb' ! n) (xs @ ys)"
proof -
  let ?idx = "hf (mask_tbl t) (key it)"
  let ?msg = "''HashTable<>::Delete: item not found!''"
  from bk live have vi: "valid_index (table t) ?idx" and mem: "a \<in> set (bk n)"
    by (auto simp: buckets_def n_def)
  then have n: "n < length (table t)"
    by (simp add: valid_index_def n_def)
  with bk have ch: "is_chain (heap t) (table t ! n) (bk n)"
    and dk: "distinct (map (key_at (heap t)) (bk n))"
    by (auto simp: buckets_def)
  from dk have d: "distinct (bk n)"
    by (simp add: distinct_map)
  from mem obtain xs ys where split: "bk n = xs @ a # ys"
    by (meson split_list)
  with d have nx: "a \<notin> set xs" and ny: "a \<notin> set ys"
    by auto
  have ld: "load (heap t) (table t) (Bin ?idx) = Inr (table t ! n)"
    using vi by (simp add: load_def at_def n_def)
  have loop: "Delete_loop (heap t) (table t) (Bin ?idx) a =
      Some (store_loc (heap t) (table t) (if xs = [] then Bin ?idx else Next (last xs)) (next_item it))"
    using ld ch nx live unfolding split by (rule Delete_loop_present)
  from ids live have vid: "valid_index (id_to_item t) (id_item it)"
    by (auto simp: ids_ok_def)
  show ?thesis
  proof (cases "xs = []")
    case True
    let ?h = "(heap t)(a := None)"
    let ?tb = "(table t)[n := next_item it]"
    have st: "store_loc (heap t) (table t) (Bin ?idx) (next_item it) = Inr (heap t, ?tb)"
      using vi by (simp add: store_loc_def store_def n_def)
    have del: "Delete hf t a = Some (Inr (t\<lparr>heap := ?h, table := ?tb,
          id_to_item := (id_to_item t)[nat (sint (id_item it)) := None],
          id_gen := IdGenerator_Reuse (id_gen t) (id_item it)\<rparr>))"
      using live loop True st vid by (simp add: Delete_def store_def)
    have "is_chain ?h (next_item it) ys"
      using ch ny live unfolding split True by (simp add: chain_unlink_head)
    then have "is_chain ?h (?tb ! n) (xs @ ys)"
      using n True by simp
    with del split n mem show ?thesis
      by (intro exI [of _ xs] exI [of _ ys] exI [of _ ?h] exI [of _ ?tb])
        (auto simp: key_at_def id_at_def)
  next
    case False
    then have lmem: "last xs \<in> set (bk n)"
      by (simp add: split)
    from chain_in_heap [OF ch this] obtain itl where itl: "heap t (last xs) = Some itl"
      by blast
    from False nx have la: "last xs \<noteq> a"
      using last_in_set by metis
    let ?g = "(heap t)(last xs \<mapsto> itl\<lparr>next_item := next_item it\<rparr>)"
    let ?h = "?g(a := None)"
    have st: "store_loc (heap t) (table t) (Next (last xs)) (next_item it) = Inr (?g, table t)"
      using itl by (simp add: store_loc_def)
    have "?g a = Some it"
      using la live by simp
    then have del: "Delete hf t a = Some (Inr (t\<lparr>heap := ?h, table := table t,
          id_to_item := (id_to_item t)[nat (sint (id_item it)) := None],
          id_gen := IdGenerator_Reuse (id_gen t) (id_item it)\<rparr>))"
      using live loop False st vid by (simp add: Delete_def store_def del: fun_upd_apply)
    have "is_chain ?h (table t ! n) (xs @ ys)"
      using ch d False live itl unfolding split by (rule chain_unlink_inner)
    with del split n mem lmem itl show ?thesis
      by (intro exI [of _ xs] exI [of _ ys] exI [of _ ?h] exI [of _ "table t"])
        (auto simp: key_at_def id_at_def)
  qed
qed

subsection \<open>Buckets\<close>

lemma heap_key_at: "h a = Some it \<Longrightarrow> key_at h a = Some (key it)"
  by (simp add: key_at_def)

lemma key_at_SomeD: "key_at h a = Some k \<Longrightarrow> \<exists>it. h a = Some it \<and> key it = k"
  by (auto simp: key_at_def)

lemma id_at_SomeD: "id_at h a = Some i \<Longrightarrow> \<exists>it. h a = Some it \<and> id_item it = i"
  by (auto simp: id_at_def)

lemma heap_id_at: "h a = Some it \<Longrightarrow> id_at h a = Some (id_item it)"
  by (simp add: id_at_def)

lemma key_transfer:
  "key_at h' c = key_at h c \<Longrightarrow> h' c = Some itc \<Longrightarrow> \<exists>it0. h c = Some it0 \<and> key it0 = key itc"
  by (cases "h c") (auto simp: key_at_def)

lemma id_transfer:
  "id_at h' c = id_at h c \<Longrightarrow> h' c = Some itc \<Longrightarrow>
   \<exists>it0. h c = Some it0 \<and> id_item it0 = id_item itc"
  by (cases "h c") (auto simp: id_at_def)

lemma buckets_chain:
  "buckets hf t bk \<Longrightarrow> i < length (table t) \<Longrightarrow> is_chain (heap t) (table t ! i) (bk i)"
  by (simp add: buckets_def)

lemma buckets_distinct:
  "buckets hf t bk \<Longrightarrow> i < length (table t) \<Longrightarrow> distinct (map (key_at (heap t)) (bk i))"
  by (simp add: buckets_def)

lemma buckets_bin:
  "buckets hf t bk \<Longrightarrow> i < length (table t) \<Longrightarrow> a \<in> set (bk i) \<Longrightarrow> heap t a = Some it \<Longrightarrow>
   nat (sint (hf (mask_tbl t) (key it))) = i"
  unfolding buckets_def by blast

lemma buckets_valid:
  "buckets hf t bk \<Longrightarrow> heap t a = Some it \<Longrightarrow> valid_index (table t) (hf (mask_tbl t) (key it))"
  unfolding buckets_def by blast

lemma buckets_mem:
  "buckets hf t bk \<Longrightarrow> heap t a = Some it \<Longrightarrow>
   a \<in> set (bk (nat (sint (hf (mask_tbl t) (key it)))))"
  unfolding buckets_def by blast

text \<open>Two buckets share no item.\<close>

lemma buckets_disjoint:
  assumes "buckets hf t bk" "i < length (table t)" "j < length (table t)"
    "a \<in> set (bk i)" "a \<in> set (bk j)"
  shows "i = j"
proof -
  from assms have "is_chain (heap t) (table t ! i) (bk i)"
    by (simp add: buckets_def)
  from chain_in_heap [OF this assms(4)] obtain it where it: "heap t a = Some it"
    by blast
  from buckets_bin [OF assms(1,2,4) it] buckets_bin [OF assms(1,3,5) it] show ?thesis
    by simp
qed

lemma buckets_key_unique:
  assumes bk: "buckets hf t bk" and a: "heap t a = Some it" and c: "heap t c = Some itc"
    and k: "key it = key itc"
  shows "a = c"
proof -
  let ?n = "nat (sint (hf (mask_tbl t) (key it)))"
  from bk a have n: "?n < length (table t)" and ma: "a \<in> set (bk ?n)"
    by (auto simp: buckets_def valid_index_def)
  from bk c have "c \<in> set (bk (nat (sint (hf (mask_tbl t) (key itc)))))"
    by (auto simp: buckets_def)
  with k have mc: "c \<in> set (bk ?n)"
    by simp
  note m = ma mc
  from bk n have "distinct (map (key_at (heap t)) (bk ?n))"
    by (simp add: buckets_def)
  then have "inj_on (key_at (heap t)) (set (bk ?n))"
    by (simp add: distinct_map)
  moreover have "key_at (heap t) a = key_at (heap t) c"
    using a c k by (simp add: key_at_def)
  ultimately show ?thesis
    using m by (auto dest: inj_onD)
qed

lemma Delete_buckets:
  assumes bk: "buckets hf t bk" and live: "heap t a = Some it"
    and split: "bk (nat (sint (hf (mask_tbl t) (key it)))) = xs @ a # ys"
    and ha: "h' a = None"
    and keys: "\<forall>c. c \<noteq> a \<longrightarrow> key_at h' c = key_at (heap t) c"
    and frame: "\<forall>c. c \<notin> set (bk (nat (sint (hf (mask_tbl t) (key it))))) \<longrightarrow> h' c = heap t c"
    and len: "length tb' = length (table t)"
    and tb: "\<forall>j < length tb'. j \<noteq> nat (sint (hf (mask_tbl t) (key it))) \<longrightarrow> tb' ! j = table t ! j"
    and ch: "is_chain h' (tb' ! nat (sint (hf (mask_tbl t) (key it)))) (xs @ ys)"
    and t': "heap t' = h'" "table t' = tb'" "mask_tbl t' = mask_tbl t"
  shows "buckets hf t' (bk(nat (sint (hf (mask_tbl t) (key it))) := xs @ ys))"
proof -
  let ?n = "nat (sint (hf (mask_tbl t) (key it)))"
  let ?bk = "bk(?n := xs @ ys)"
  from bk live have n: "?n < length (table t)"
    by (auto simp: buckets_def valid_index_def)
  from bk n have dk: "distinct (map (key_at (heap t)) (bk ?n))"
    by (simp add: buckets_def)
  then have d: "distinct (bk ?n)"
    by (simp add: distinct_map)
  with split have na: "a \<notin> set (xs @ ys)"
    by auto
  have bin: "nat (sint (hf (mask_tbl t) (key itc))) = i"
    if "i < length (table t)" "c \<in> set (?bk i)" "h' c = Some itc" for i c itc
  proof -
    from that ha have "c \<noteq> a"
      by auto
    with that have "c \<in> set (bk i)"
      by (auto simp: split split: if_splits)
    from \<open>c \<noteq> a\<close> keys have "key_at h' c = key_at (heap t) c"
      by simp
    from key_transfer [OF this that(3)]
    obtain it0 where "heap t c = Some it0" "key it0 = key itc"
      by blast
    with buckets_bin [OF bk that(1) \<open>c \<in> set (bk i)\<close>] show ?thesis
      by simp
  qed
  have is_chain: "is_chain h' (tb' ! i) (?bk i)" if "i < length (table t)" for i
  proof (cases "i = ?n")
    case True
    with ch show ?thesis by simp
  next
    case False
    from bk that have c0: "is_chain (heap t) (table t ! i) (bk i)"
      by (simp add: buckets_def)
    have "\<forall>c \<in> set (bk i). h' c = heap t c"
      using buckets_disjoint [OF bk that n] False frame by blast
    from chain_frame [OF c0 this] tb len that False show ?thesis
      by simp
  qed
  have dist: "distinct (map (key_at h') (?bk i))" if "i < length (table t)" for i
  proof -
    from bk that have d0: "distinct (map (key_at (heap t)) (bk i))"
      by (simp add: buckets_def)
    have "a \<notin> set (?bk i)"
      using na d split by (cases "i = ?n") (use buckets_disjoint [OF bk that n] in auto)
    then have eq: "map (key_at h') (?bk i) = map (key_at (heap t)) (?bk i)"
      using keys by (intro map_cong) auto
    have "distinct (map (key_at (heap t)) (?bk i))"
      using d0 dk split by (cases "i = ?n") auto
    then show ?thesis by (simp only: eq)
  qed
  have all: "valid_index tb' (hf (mask_tbl t) (key itc)) \<and>
      c \<in> set (?bk (nat (sint (hf (mask_tbl t) (key itc)))))"
    if "h' c = Some itc" for c itc
  proof -
    from that ha have ca: "c \<noteq> a" by auto
    with keys have "key_at h' c = key_at (heap t) c"
      by simp
    from key_transfer [OF this that]
    obtain it0 where "heap t c = Some it0" "key it0 = key itc"
      by blast
    with buckets_valid [OF bk, of c it0] buckets_mem [OF bk, of c it0]
    have "valid_index (table t) (hf (mask_tbl t) (key itc))"
      "c \<in> set (bk (nat (sint (hf (mask_tbl t) (key itc)))))"
      by simp_all
    with ca split len show ?thesis
      by (auto simp: valid_index_def)
  qed
  show ?thesis
    unfolding buckets_def t' len
    using is_chain dist bin all by blast
qed

subsection \<open>The identifier index\<close>

lemma ids_valid: "ids_ok t \<Longrightarrow> heap t a = Some it \<Longrightarrow> valid_index (id_to_item t) (id_item it)"
  unfolding ids_ok_def by blast

lemma ids_slot:
  "ids_ok t \<Longrightarrow> heap t a = Some it \<Longrightarrow> id_to_item t ! nat (sint (id_item it)) = Some a"
  unfolding ids_ok_def by blast

lemma ids_live:
  "ids_ok t \<Longrightarrow> i < length (id_to_item t) \<Longrightarrow> id_to_item t ! i = Some a \<Longrightarrow>
   \<exists>it. heap t a = Some it \<and> sint (id_item it) = int i"
  unfolding ids_ok_def by blast

lemma ids_next: "ids_ok t \<Longrightarrow> 0 \<le> sint (next_id (id_gen t))"
  unfolding ids_ok_def by blast

lemma ids_length: "ids_ok t \<Longrightarrow> length (id_to_item t) \<le> nat (sint (next_id (id_gen t)))"
  unfolding ids_ok_def by blast

lemma ids_distinct: "ids_ok t \<Longrightarrow> distinct (reusable (id_gen t))"
  unfolding ids_ok_def by blast

lemma ids_reusable:
  "ids_ok t \<Longrightarrow> r \<in> set (reusable (id_gen t)) \<Longrightarrow>
   0 \<le> sint r \<and> sint r < sint (next_id (id_gen t))"
  unfolding ids_ok_def by blast

lemma ids_reusable_free:
  "ids_ok t \<Longrightarrow> r \<in> set (reusable (id_gen t)) \<Longrightarrow> heap t a = Some it \<Longrightarrow> id_item it \<noteq> r"
  unfolding ids_ok_def by blast

text \<open>Two live items have different identifiers.\<close>

lemma ids_unique:
  assumes "ids_ok t" "heap t a = Some it" "heap t c = Some itc" "id_item it = id_item itc"
  shows "a = c"
  using ids_slot [OF assms(1,2)] ids_slot [OF assms(1,3)] assms(4) by simp

lemma Delete_ids:
  assumes ids: "ids_ok t" and live: "heap t a = Some it"
    and ha: "heap t' a = None"
    and same: "\<forall>c. c \<noteq> a \<longrightarrow> id_at (heap t') c = id_at (heap t) c"
    and t': "id_to_item t' = (id_to_item t)[nat (sint (id_item it)) := None]"
            "id_gen t' = IdGenerator_Reuse (id_gen t) (id_item it)"
  shows "ids_ok t'"
proof -
  let ?ia = "nat (sint (id_item it))"
  have va: "valid_index (id_to_item t) (id_item it)"
    using ids live by (rule ids_valid)
  have old: "\<exists>it0. heap t c = Some it0 \<and> id_item it0 = id_item itc \<and> c \<noteq> a"
    if "heap t' c = Some itc" for c itc
  proof -
    from that ha have "c \<noteq> a" by auto
    with same have "id_at (heap t') c = id_at (heap t) c" by simp
    from id_transfer [OF this that] \<open>c \<noteq> a\<close> show ?thesis by blast
  qed
  have p1: "valid_index (id_to_item t') (id_item itc) \<and>
      id_to_item t' ! nat (sint (id_item itc)) = Some c"
    if "heap t' c = Some itc" for c itc
  proof -
    from old [OF that] obtain it0 where it0: "heap t c = Some it0" "id_item it0 = id_item itc"
      "c \<noteq> a" by blast
    from ids_valid [OF ids it0(1)] ids_slot [OF ids it0(1)] it0(2)
    have v: "valid_index (id_to_item t) (id_item itc)"
      and s: "id_to_item t ! nat (sint (id_item itc)) = Some c"
      by simp_all
    from s ids_slot [OF ids live] it0(3) have "nat (sint (id_item itc)) \<noteq> ?ia"
      by auto
    with v s show ?thesis
      by (simp add: t' valid_index_def)
  qed
  have p2: "\<exists>itc. heap t' c = Some itc \<and> sint (id_item itc) = int i"
    if "i < length (id_to_item t')" "id_to_item t' ! i = Some c" for i c
  proof -
    from that have i1: "i < length (id_to_item t)"
      by (simp add: t')
    with that(2) have i2: "i \<noteq> ?ia"
      by (auto simp: t')
    with that(2) have "id_to_item t ! i = Some c"
      by (simp add: t')
    note i = i1 i2 this
    from ids_live [OF ids i(1,3)] obtain it0 where it0: "heap t c = Some it0"
      "sint (id_item it0) = int i" by blast
    with i(2) live have "c \<noteq> a" by auto
    with same have "id_at (heap t') c = id_at (heap t) c" by simp
    with it0 show ?thesis
      by (cases "heap t' c") (auto simp: id_at_def)
  qed
  have fresh: "id_item it \<notin> set (reusable (id_gen t))"
    using ids_reusable_free [OF ids _ live] by blast
  have p5: "distinct (reusable (id_gen t'))"
    using ids_distinct [OF ids] fresh by (simp add: t' IdGenerator_Reuse_def Append_def)
  have p6: "0 \<le> sint r \<and> sint r < sint (next_id (id_gen t')) \<and>
      (\<forall>c itc. heap t' c = Some itc \<longrightarrow> id_item itc \<noteq> r)"
    if "r \<in> set (reusable (id_gen t'))" for r
  proof (cases "r = id_item it")
    case True
    from va ids_length [OF ids] ids_next [OF ids]
    have "0 \<le> sint r" "sint r < sint (next_id (id_gen t'))"
      by (auto simp: True valid_index_def t' IdGenerator_Reuse_def)
    moreover have "id_item itc \<noteq> r" if "heap t' c = Some itc" for c itc
    proof
      assume e: "id_item itc = r"
      from old [OF that] obtain it0 where it0: "heap t c = Some it0" "id_item it0 = id_item itc"
        "c \<noteq> a" by blast
      with ids_unique [OF ids live it0(1)] e True show False by simp
    qed
    ultimately show ?thesis by blast
  next
    case False
    with that have r: "r \<in> set (reusable (id_gen t))"
      by (simp add: t' IdGenerator_Reuse_def Append_def)
    have "id_item itc \<noteq> r" if "heap t' c = Some itc" for c itc
    proof -
      from old [OF that] obtain it0 where it0: "heap t c = Some it0" "id_item it0 = id_item itc"
        by blast
      with ids_reusable_free [OF ids r it0(1)] show ?thesis by simp
    qed
    with ids_reusable [OF ids r] show ?thesis
      by (simp add: t' IdGenerator_Reuse_def)
  qed
  have p3: "0 \<le> sint (next_id (id_gen t'))"
    using ids_next [OF ids] by (simp add: t' IdGenerator_Reuse_def)
  have p4: "length (id_to_item t') \<le> nat (sint (next_id (id_gen t')))"
    using ids_length [OF ids] by (simp add: t' IdGenerator_Reuse_def)
  show ?thesis
    unfolding ids_ok_def using p1 p2 p3 p4 p5 p6 by blast
qed

subsection \<open>Delete keeps the table well-formed\<close>

lemma chain_nonempty: "is_chain h p as \<Longrightarrow> as \<noteq> [] \<Longrightarrow> p \<noteq> None"
  by (cases as) auto

lemma Delete_wf:
  assumes wf: "wf_table hf t" and live: "heap t a = Some it"
  shows "\<exists>t'. Delete hf t a = Some (Inr t') \<and> wf_table hf t' \<and> heap t' a = None \<and>
      (\<forall>c. c \<noteq> a \<longrightarrow> key_at (heap t') c = key_at (heap t) c \<and>
                     id_at (heap t') c = id_at (heap t) c) \<and>
      length (table t') = length (table t) \<and> mask_tbl t' = mask_tbl t \<and>
      id_to_item t' = (id_to_item t)[nat (sint (id_item it)) := None] \<and>
      id_gen t' = IdGenerator_Reuse (id_gen t) (id_item it) \<and>
      used_bins t' = used_bins t \<and> new_bin t' = new_bin t \<and>
      nqueries t' = nqueries t \<and> ncollisions t' = ncollisions t \<and> brk t' = brk t"
proof -
  let ?n = "nat (sint (hf (mask_tbl t) (key it)))"
  from wf obtain bk where bk: "buckets hf t bk" and ids: "ids_ok t" and bins: "bins_ok t"
    and brk: "\<forall>a. heap t a \<noteq> None \<longrightarrow> a < brk t"
    by (auto simp: wf_table_def)
  from Delete_effect [OF bk ids live] obtain xs ys h' tb' where
    split: "bk ?n = xs @ a # ys" and
    del: "Delete hf t a = Some (Inr (t\<lparr>heap := h', table := tb',
          id_to_item := (id_to_item t)[nat (sint (id_item it)) := None],
          id_gen := IdGenerator_Reuse (id_gen t) (id_item it)\<rparr>))" and
    ha: "h' a = None" and
    same: "\<forall>c. c \<noteq> a \<longrightarrow> key_at h' c = key_at (heap t) c \<and> id_at h' c = id_at (heap t) c" and
    frame: "\<forall>c. c \<notin> set (bk ?n) \<longrightarrow> h' c = heap t c" and
    len: "length tb' = length (table t)" and
    tb: "\<forall>j < length tb'. j \<noteq> ?n \<longrightarrow> tb' ! j = table t ! j" and
    ch: "is_chain h' (tb' ! ?n) (xs @ ys)"
    by blast
  let ?t = "t\<lparr>heap := h', table := tb',
          id_to_item := (id_to_item t)[nat (sint (id_item it)) := None],
          id_gen := IdGenerator_Reuse (id_gen t) (id_item it)\<rparr>"
  from same have keys: "\<forall>c. c \<noteq> a \<longrightarrow> key_at h' c = key_at (heap t) c"
    and idsame: "\<forall>c. c \<noteq> a \<longrightarrow> id_at (heap ?t) c = id_at (heap t) c"
    by simp_all
  have b': "buckets hf ?t (bk(?n := xs @ ys))"
    by (rule Delete_buckets [OF bk live split ha keys frame len tb ch]) simp_all
  have i': "ids_ok ?t"
    by (rule Delete_ids [OF ids live _ idsame]) (simp_all add: ha)
  have n: "?n < length (table t)"
    using buckets_valid [OF bk live] by (simp add: valid_index_def)
  have "table t ! ?n \<noteq> None"
    using buckets_chain [OF bk n] split by (auto dest: chain_nonempty)
  with bins n have nn: "\<not> new_bin t ! ?n"
    unfolding bins_ok_def by blast
  have "\<not> new_bin t ! i" if "i < length (table t)" "tb' ! i \<noteq> None" for i
  proof (cases "i = ?n")
    case True
    with nn show ?thesis by simp
  next
    case False
    with that tb len have "table t ! i \<noteq> None" by simp
    with bins that(1) show ?thesis
      unfolding bins_ok_def by blast
  qed
  with bins len have n': "bins_ok ?t"
    unfolding bins_ok_def valid_index_def by simp
  have k': "\<forall>c. heap ?t c \<noteq> None \<longrightarrow> c < brk ?t"
  proof (intro allI impI)
    fix c assume "heap ?t c \<noteq> None"
    then obtain itc where c: "h' c = Some itc" by auto
    with ha have "c \<noteq> a" by auto
    with keys have "key_at h' c = key_at (heap t) c" by simp
    from key_transfer [OF this c] brk show "c < brk ?t" by auto
  qed
  from b' i' n' k' have "wf_table hf ?t"
    unfolding wf_table_def by blast
  with del ha same len show ?thesis
    by (intro exI [of _ ?t]) simp
qed

subsection \<open>Signed words\<close>

lemma sint_of_nat_small: "n < 2 ^ 31 \<Longrightarrow> sint (of_nat n :: int32) = int n"
proof -
  assume n: "n < 2 ^ 31"
  have "sint (of_nat n :: int32) = signed_take_bit 31 (int n)"
    by (simp add: signed_of_nat)
  also have "\<dots> = int n"
    using n by (simp add: signed_take_bit_int_eq_self)
  finally show ?thesis .
qed

lemma sint_Size: "length xs < 2 ^ 31 \<Longrightarrow> sint (Size xs) = int (length xs)"
  by (simp add: Size_def sint_of_nat_small)

lemma sint_plus1: "sint (i :: int32) < 2 ^ 31 - 1 \<Longrightarrow> sint (i + 1) = sint i + 1"
proof -
  assume "sint i < 2 ^ 31 - 1"
  moreover have "- (2 ^ 31) \<le> sint i" using sint_ge [of i] by simp
  ultimately have "- (2 ^ 31) \<le> sint i + 1" "sint i + 1 < 2 ^ 31" by simp_all
  then show ?thesis
    by (simp add: sint_word_ariths signed_take_bit_int_eq_self)
qed

lemma sint_plus1_max: "sint (i :: int32) = 2 ^ 31 - 1 \<Longrightarrow> sint (i + 1) < 0"
proof -
  assume a: "sint i = 2 ^ 31 - 1"
  have "i = word_of_int (sint i)" by simp
  then have "i = 2147483647" using a by simp
  then show ?thesis by simp
qed

lemma sint_le_max: "sint (i :: int32) \<le> 2 ^ 31 - 1"
  using sint_lt [of i] by simp

subsection \<open>Search, Peek and Get on a well-formed table\<close>

lemma find_unique:
  "distinct (map f xs) \<Longrightarrow> a \<in> set xs \<Longrightarrow> f a = v \<Longrightarrow> find (\<lambda>x. f x = v) xs = Some a"
  by (induction xs) auto

lemma found_SomeD: "found h k as = Some a \<Longrightarrow> a \<in> set as \<and> key_at h a = Some k"
  by (auto simp: found_def find_Some_iff)

lemma found_None_iff: "found h k as = None \<longleftrightarrow> (\<forall>a \<in> set as. key_at h a \<noteq> Some k)"
  by (auto simp: found_def find_None_iff)

lemma buckets_found:
  assumes "buckets hf t bk" "heap t a = Some it"
  shows "found (heap t) (key it) (bk (nat (sint (hf (mask_tbl t) (key it))))) = Some a"
proof -
  let ?n = "nat (sint (hf (mask_tbl t) (key it)))"
  have "?n < length (table t)"
    using buckets_valid [OF assms] by (simp add: valid_index_def)
  moreover have "key_at (heap t) a = Some (key it)"
    using assms(2) by (simp add: key_at_def)
  ultimately show ?thesis
    using buckets_distinct [OF assms(1), of ?n] buckets_mem [OF assms]
    unfolding found_def by (intro find_unique) auto
qed

lemma buckets_found_None:
  assumes "buckets hf t bk"
    "found (heap t) k (bk (nat (sint (hf (mask_tbl t) k)))) = None" "heap t a = Some it"
  shows "key it \<noteq> k"
proof
  assume "key it = k"
  with buckets_found [OF assms(1,3)] assms(2) show False by simp
qed

lemma SearchList_wf:
  assumes "buckets hf t bk" "n < length (table t)"
  shows "SearchList t (table t ! n) k =
     Some (Inr (found (heap t) k (bk n),
       t\<lparr>nqueries := nqueries t + 1,
         ncollisions := ncollisions t + of_nat (advances (heap t) k (bk n))\<rparr>))"
  using SearchList_loop_chain [OF buckets_chain [OF assms], of k "ncollisions t"]
  by (simp add: SearchList_def)

lemma Peek_key_wf:
  assumes "buckets hf t bk" "valid_index (table t) (hf (mask_tbl t) k)"
  shows "Peek_key hf t k =
     Some (Inr (found (heap t) k (bk (nat (sint (hf (mask_tbl t) k)))),
       t\<lparr>nqueries := nqueries t + 1,
         ncollisions := ncollisions t +
           of_nat (advances (heap t) k (bk (nat (sint (hf (mask_tbl t) k)))))\<rparr>))"
proof -
  from assms(2) have "nat (sint (hf (mask_tbl t) k)) < length (table t)"
    by (simp add: valid_index_def)
  from SearchList_wf [OF assms(1) this] assms(2) show ?thesis
    by (simp add: Peek_key_def at_def)
qed

lemma Get_key_found:
  assumes "buckets hf t bk" "valid_index (table t) (hf (mask_tbl t) k)"
    "found (heap t) k (bk (nat (sint (hf (mask_tbl t) k)))) = Some a"
  shows "Get_key hf t k =
     Some (Inr (a,
       t\<lparr>nqueries := nqueries t + 1,
         ncollisions := ncollisions t +
           of_nat (advances (heap t) k (bk (nat (sint (hf (mask_tbl t) k)))))\<rparr>))"
proof -
  from assms(2) have "nat (sint (hf (mask_tbl t) k)) < length (table t)"
    by (simp add: valid_index_def)
  from SearchList_wf [OF assms(1) this] assms(2,3) show ?thesis
    by (simp add: Get_key_def at_def)
qed

lemma gen_id_bounds:
  assumes "ids_ok t" "IdGenerator_Get (id_gen t) = (i, g)"
  shows "0 \<le> sint i" "sint i \<le> sint (next_id (id_gen t))"
    "reusable (id_gen t) \<noteq> [] \<Longrightarrow> sint i < sint (next_id (id_gen t))"
    "reusable (id_gen t) = [] \<Longrightarrow> i = next_id (id_gen t)"
proof -
  show "reusable (id_gen t) = [] \<Longrightarrow> i = next_id (id_gen t)"
    using assms(2) by (simp add: IdGenerator_Get_def)
  show lt: "reusable (id_gen t) \<noteq> [] \<Longrightarrow> sint i < sint (next_id (id_gen t))"
    using assms(2) ids_reusable [OF assms(1), of "last (reusable (id_gen t))"]
    by (auto simp: IdGenerator_Get_def)
  show "0 \<le> sint i"
    using assms(2) ids_reusable [OF assms(1), of "last (reusable (id_gen t))"]
      ids_next [OF assms(1)]
    by (auto simp: IdGenerator_Get_def split: if_splits)
  show "sint i \<le> sint (next_id (id_gen t))"
    using lt assms(2) by (cases "reusable (id_gen t) = []") (auto simp: IdGenerator_Get_def)
qed

lemma Get_key_create:
  assumes bk: "buckets hf t bk" and ids: "ids_ok t" and bins: "bins_ok t"
    and v: "valid_index (table t) (hf (mask_tbl t) k)"
    and nf: "found (heap t) k (bk (nat (sint (hf (mask_tbl t) k)))) = None"
  shows "Get_key hf t k =
     (if ids_exhausted t then Some (Inl InvalidAccess)
      else Some (Inr (brk t, created hf t k
             (ncollisions t + of_nat (advances (heap t) k (bk (nat (sint (hf (mask_tbl t) k)))))))))"
proof -
  let ?idx = "hf (mask_tbl t) k"
  let ?n = "nat (sint ?idx)"
  let ?nc = "ncollisions t + of_nat (advances (heap t) k (bk ?n))"
  let ?t1 = "t\<lparr>nqueries := nqueries t + 1, ncollisions := ?nc\<rparr>"
  obtain i g where ig: "IdGenerator_Get (id_gen t) = (i, g)"
    by (cases "IdGenerator_Get (id_gen t)")
  let ?ni = "nat (sint i)"
  let ?ids = "id_to_item t"
  from v have n: "?n < length (table t)"
    by (simp add: valid_index_def)
  have sl: "SearchList t (table t ! ?n) k = Some (Inr (None, ?t1))"
    using SearchList_wf [OF bk n, of k] nf by simp
  have vb: "valid_index (new_bin t) ?idx"
    using v bins by (simp add: valid_index_def bins_ok_def)
  have i0: "0 \<le> sint i" and ile: "sint i \<le> sint (next_id (id_gen t))"
    using gen_id_bounds [OF ids ig] by simp_all
  have len: "length ?ids \<le> nat (sint (next_id (id_gen t)))"
    using ids by (rule ids_length)
  have "sint (next_id (id_gen t)) < 2147483648"
    using sint_lt [of "next_id (id_gen t)"] by simp
  with len have "length ?ids < 2147483648"
    by linarith
  then have "length ?ids < 2 ^ 31"
    by simp
  then have sz: "sint (Size ?ids) = int (length ?ids)"
    by (rule sint_Size)
  have cmp: "Size ?ids \<le>s i \<longleftrightarrow> length ?ids \<le> ?ni"
    using sz i0 by (simp add: word_sle_eq) linarith
  show ?thesis
  proof (cases "ids_exhausted t")
    case True
    then have "i = next_id (id_gen t)" "sint i = 2 ^ 31 - 1"
      using gen_id_bounds(4) [OF ids ig] by (simp_all add: ids_exhausted_def)
    with len have "Size ?ids \<le>s i"
      unfolding cmp by simp
    moreover from \<open>sint i = 2 ^ 31 - 1\<close> sint_plus1_max [of i] have
      "SetSize ?ids (i + 1) None = Inl InvalidAccess"
      by (simp add: SetSize_def)
    ultimately show ?thesis
      using True v vb sl ig by (simp add: Get_key_def at_def store_def Let_def)
  next
    case False
    have "sint i < 2 ^ 31 - 1"
    proof (cases "reusable (id_gen t) = []")
      case True
      with False gen_id_bounds(4) [OF ids ig] sint_le_max [of i] show ?thesis
        by (simp add: ids_exhausted_def)
    next
      case False
      with gen_id_bounds(3) [OF ids ig] sint_le_max [of "next_id (id_gen t)"] show ?thesis
        by simp
    qed
    then have s1: "sint (i + 1) = sint i + 1"
      by (rule sint_plus1)
    with i0 have n1: "nat (sint (i + 1)) = Suc ?ni"
      by simp
    let ?ids1 = "?ids @ replicate (Suc ?ni - length ?ids) None"
    have e1: "SetSize ?ids (i + 1) None = Inr ?ids1" if "length ?ids \<le> ?ni"
      using that s1 i0 n1 by (simp add: SetSize_def)
    have e3: "?ids1 = ?ids" if "\<not> length ?ids \<le> ?ni"
      using that by simp
    have "?ni < length ?ids1"
      by simp
    with i0 have e2: "valid_index ?ids1 i"
      by (simp add: valid_index_def)
    have nb: "(new_bin t)[?n := False] = new_bin t" if "\<not> new_bin t ! ?n"
      using that vb by (simp add: valid_index_def list_update_same_conv)
    show ?thesis
    proof (cases "length ?ids \<le> ?ni")
      case True
      with e1 cmp have "Size ?ids \<le>s i" "SetSize ?ids (i + 1) None = Inr ?ids1"
        by simp_all
      then show ?thesis
        using \<open>\<not> ids_exhausted t\<close> v vb sl ig e2
        by (simp add: Get_key_def at_def store_def Let_def created_def Append_def nb)
    next
      case False
      with cmp have "\<not> Size ?ids \<le>s i"
        by simp
      then show ?thesis
        using \<open>\<not> ids_exhausted t\<close> v vb sl ig e2 e3 [OF False]
        by (simp add: Get_key_def at_def store_def Let_def created_def Append_def nb)
    qed
  qed
qed

subsection \<open>Get keeps the table well-formed\<close>

lemma created_fields:
  "heap (created hf t k nc) =
     (heap t)(brk t \<mapsto> \<lparr>id_item = fst (IdGenerator_Get (id_gen t)), key = k,
                          next_item = table t ! nat (sint (hf (mask_tbl t) k))\<rparr>)"
  "brk (created hf t k nc) = Suc (brk t)"
  "table (created hf t k nc) = (table t)[nat (sint (hf (mask_tbl t) k)) := Some (brk t)]"
  "mask_tbl (created hf t k nc) = mask_tbl t"
  "id_gen (created hf t k nc) = snd (IdGenerator_Get (id_gen t))"
  "id_to_item (created hf t k nc) =
     (id_to_item t @ replicate (Suc (nat (sint (fst (IdGenerator_Get (id_gen t))))) -
        length (id_to_item t)) None)
       [nat (sint (fst (IdGenerator_Get (id_gen t)))) := Some (brk t)]"
  "used_bins (created hf t k nc) =
     (if new_bin t ! nat (sint (hf (mask_tbl t) k)) then used_bins t @ [hf (mask_tbl t) k]
      else used_bins t)"
  "new_bin (created hf t k nc) = (new_bin t)[nat (sint (hf (mask_tbl t) k)) := False]"
  "nqueries (created hf t k nc) = nqueries t + 1"
  "ncollisions (created hf t k nc) = nc"
  by (simp_all add: created_def Let_def split: prod.splits)

lemma created_buckets:
  assumes bk: "buckets hf t bk" and brk: "\<forall>a. heap t a \<noteq> None \<longrightarrow> a < brk t"
    and v: "valid_index (table t) (hf (mask_tbl t) k)"
    and nf: "found (heap t) k (bk (nat (sint (hf (mask_tbl t) k)))) = None"
  shows "buckets hf (created hf t k nc)
           (bk(nat (sint (hf (mask_tbl t) k)) := brk t # bk (nat (sint (hf (mask_tbl t) k)))))"
proof -
  let ?n = "nat (sint (hf (mask_tbl t) k))"
  let ?b = "brk t"
  let ?t = "created hf t k nc"
  let ?new = "\<lparr>id_item = fst (IdGenerator_Get (id_gen t)), key = k, next_item = table t ! ?n\<rparr>"
  let ?bk = "bk(?n := ?b # bk ?n)"
  have h': "heap ?t = (heap t)(?b \<mapsto> ?new)"
    by (simp add: created_fields)
  have tb': "table ?t = (table t)[?n := Some ?b]"
    by (simp add: created_fields)
  have m': "mask_tbl ?t = mask_tbl t"
    by (simp add: created_fields)
  from v have n: "?n < length (table t)"
    by (simp add: valid_index_def)
  from brk have fresh: "heap t ?b = None"
    by (cases "heap t ?b") auto
  have notin: "?b \<notin> set (bk i)" if "i < length (table t)" for i
    using chain_in_heap [OF buckets_chain [OF bk that], of ?b] fresh by auto
  have old: "heap ?t c = heap t c" if "c \<noteq> ?b" for c
    using that by (simp add: h')
  have oldk: "key_at (heap ?t) c = key_at (heap t) c" if "c \<noteq> ?b" for c
    using old [OF that] by (simp add: key_at_def)
  have frame: "\<forall>c \<in> set (bk i). heap ?t c = heap t c" if "i < length (table t)" for i
  proof
    fix c assume "c \<in> set (bk i)"
    with notin [OF that] have "c \<noteq> ?b" by auto
    then show "heap ?t c = heap t c" by (rule old)
  qed
  have chain: "is_chain (heap ?t) (table ?t ! i) (?bk i)" if "i < length (table t)" for i
  proof (cases "i = ?n")
    case True
    have "is_chain (heap ?t) (table t ! ?n) (bk ?n)"
      using buckets_chain [OF bk n] frame [OF n] by (rule chain_frame)
    then show ?thesis
      using True n by (simp add: tb') (simp add: h')
  next
    case False
    have "is_chain (heap ?t) (table t ! i) (bk i)"
      using buckets_chain [OF bk that] frame [OF that] by (rule chain_frame)
    with False show ?thesis
      by (simp add: tb')
  qed
  have dist: "distinct (map (key_at (heap ?t)) (?bk i))" if "i < length (table t)" for i
  proof -
    have eq: "map (key_at (heap ?t)) (bk i) = map (key_at (heap t)) (bk i)"
    proof (rule map_cong [OF refl])
      fix c assume "c \<in> set (bk i)"
      with notin [OF that] have "c \<noteq> ?b" by auto
      then show "key_at (heap ?t) c = key_at (heap t) c" by (rule oldk)
    qed
    have d: "distinct (map (key_at (heap ?t)) (bk i))"
      unfolding eq using bk that by (rule buckets_distinct)
    show ?thesis
    proof (cases "i = ?n")
      case True
      have "key_at (heap ?t) ?b = Some k"
        by (simp add: h' key_at_def)
      moreover have "Some k \<notin> set (map (key_at (heap ?t)) (bk ?n))"
        unfolding eq [unfolded True] using nf by (auto simp: found_None_iff)
      ultimately show ?thesis
        using d True by simp
    next
      case False
      with d show ?thesis by simp
    qed
  qed
  have bin: "nat (sint (hf (mask_tbl t) (key itc))) = i"
    if "i < length (table t)" "c \<in> set (?bk i)" "heap ?t c = Some itc" for i c itc
  proof (cases "c = ?b")
    case True
    with that(3) have "key itc = k"
      by (auto simp: h')
    moreover from True that(1,2) notin [OF that(1)] have "i = ?n"
      by (auto split: if_splits)
    ultimately show ?thesis by simp
  next
    case False
    with that have "c \<in> set (bk i)" "heap t c = Some itc"
      by (auto simp: h' split: if_splits)
    with buckets_bin [OF bk that(1)] show ?thesis by blast
  qed
  have all: "valid_index (table ?t) (hf (mask_tbl t) (key itc)) \<and>
      c \<in> set (?bk (nat (sint (hf (mask_tbl t) (key itc)))))"
    if "heap ?t c = Some itc" for c itc
  proof (cases "c = ?b")
    case True
    with that have "key itc = k"
      by (auto simp: h')
    with True v show ?thesis
      by (simp add: tb' valid_index_def)
  next
    case False
    with that have "heap t c = Some itc"
      by (simp add: h')
    from buckets_valid [OF bk this] buckets_mem [OF bk this] show ?thesis
      by (auto simp: tb' valid_index_def)
  qed
  have len: "length (table ?t) = length (table t)"
    by (simp add: tb')
  show ?thesis
    unfolding buckets_def m' len
    using chain dist bin all by blast
qed

lemma created_ids:
  assumes ids: "ids_ok t" and brk: "\<forall>a. heap t a \<noteq> None \<longrightarrow> a < brk t"
    and ne: "\<not> ids_exhausted t"
  shows "ids_ok (created hf t k nc)"
proof -
  let ?t = "created hf t k nc"
  let ?b = "brk t"
  let ?i = "fst (IdGenerator_Get (id_gen t))"
  let ?g = "snd (IdGenerator_Get (id_gen t))"
  let ?ni = "nat (sint ?i)"
  let ?ids = "id_to_item t"
  let ?ids1 = "?ids @ replicate (Suc ?ni - length ?ids) None"
  let ?nx = "next_id (id_gen t)"
  have ig: "IdGenerator_Get (id_gen t) = (?i, ?g)"
    by simp
  note b = gen_id_bounds [OF ids ig]
  have h': "heap ?t = (heap t)(?b \<mapsto> \<lparr>id_item = ?i, key = k,
                          next_item = table t ! nat (sint (hf (mask_tbl t) k))\<rparr>)"
    by (simp add: created_fields)
  have ids': "id_to_item ?t = ?ids1[?ni := Some ?b]"
    by (simp add: created_fields)
  have g': "id_gen ?t = ?g"
    by (simp add: created_fields)
  from brk have fresh: "heap t ?b = None"
    by (cases "heap t ?b") auto
  have len1: "?ni < length ?ids1"
    by simp
  have nx0: "0 \<le> sint ?nx"
    using ids by (rule ids_next)
  have free: "id_item it \<noteq> ?i" if "heap t a = Some it" for a it
  proof (cases "reusable (id_gen t) = []")
    case True
    from ids_valid [OF ids that] ids_length [OF ids] nx0 have "sint (id_item it) < sint ?nx"
      unfolding valid_index_def by linarith
    with b(4) [OF True] show ?thesis by auto
  next
    case False
    then have "?i \<in> set (reusable (id_gen t))"
      by (simp add: IdGenerator_Get_def)
    from ids_reusable_free [OF ids this that] show ?thesis .
  qed
  have p1: "valid_index (id_to_item ?t) (id_item itc) \<and>
      id_to_item ?t ! nat (sint (id_item itc)) = Some c"
    if "heap ?t c = Some itc" for c itc
  proof (cases "c = ?b")
    case True
    with that have "id_item itc = ?i"
      by (auto simp: h')
    with True b(1) len1 show ?thesis
      by (simp add: ids' valid_index_def del: length_append length_replicate)
  next
    case False
    with that have c: "heap t c = Some itc"
      by (simp add: h')
    from ids_valid [OF ids c] have v: "0 \<le> sint (id_item itc)"
      "nat (sint (id_item itc)) < length ?ids"
      by (simp_all add: valid_index_def)
    from free [OF c] have "sint (id_item itc) \<noteq> sint ?i"
      by (auto dest: signed_word_eqI)
    with v(1) b(1) have "nat (sint (id_item itc)) \<noteq> ?ni"
      by simp
    with v ids_slot [OF ids c] show ?thesis
      by (simp add: ids' valid_index_def nth_append)
  qed
  have p2: "\<exists>itc. heap ?t c = Some itc \<and> sint (id_item itc) = int j"
    if "j < length (id_to_item ?t)" "id_to_item ?t ! j = Some c" for j c
  proof (cases "j = ?ni")
    case True
    with that len1 have "c = ?b"
      by (simp add: ids' del: length_append length_replicate)
    with True b(1) show ?thesis
      by (simp add: h')
  next
    case False
    with that have "?ids1 ! j = Some c"
      by (simp add: ids')
    then have j: "j < length ?ids" "?ids ! j = Some c"
      using that(1) by (auto simp: ids' nth_append split: if_splits)
    from ids_live [OF ids j] obtain it0 where it0: "heap t c = Some it0"
      "sint (id_item it0) = int j" by blast
    with fresh have "c \<noteq> ?b" by auto
    with it0 show ?thesis
      by (simp add: h')
  qed
  have nx: "0 \<le> sint (next_id ?g) \<and> sint ?nx \<le> sint (next_id ?g) \<and>
      Suc ?ni \<le> nat (sint (next_id ?g))"
  proof (cases "reusable (id_gen t) = []")
    case True
    with ne sint_le_max [of ?nx] have "sint ?nx < 2 ^ 31 - 1"
      by (simp add: ids_exhausted_def)
    then have "sint (?nx + 1) = sint ?nx + 1"
      by (rule sint_plus1)
    with True nx0 b(4) [OF True] show ?thesis
      by (simp add: IdGenerator_Get_def)
  next
    case False
    with b(3) [OF False] b(1) nx0 show ?thesis
      by (simp add: IdGenerator_Get_def)
  qed
  have p4: "length (id_to_item ?t) \<le> nat (sint (next_id (id_gen ?t)))"
    using nx ids_length [OF ids] unfolding ids' g' by (simp, linarith)
  have p5: "distinct (reusable (id_gen ?t))"
    using ids_distinct [OF ids] by (simp add: g' IdGenerator_Get_def distinct_butlast)
  have p6: "0 \<le> sint r \<and> sint r < sint (next_id (id_gen ?t)) \<and>
      (\<forall>c itc. heap ?t c = Some itc \<longrightarrow> id_item itc \<noteq> r)"
    if "r \<in> set (reusable (id_gen ?t))" for r
  proof -
    from that have ne': "reusable (id_gen t) \<noteq> []" and rb: "r \<in> set (butlast (reusable (id_gen t)))"
      by (auto simp: g' IdGenerator_Get_def split: if_splits)
    then have r: "r \<in> set (reusable (id_gen t))"
      by (auto dest: in_set_butlastD)
    from ne' have il: "?i = last (reusable (id_gen t))"
      by (simp add: IdGenerator_Get_def)
    have "r \<noteq> ?i"
    proof
      assume "r = ?i"
      with rb il have "last (reusable (id_gen t)) \<in> set (butlast (reusable (id_gen t)))"
        by simp
      moreover from ne' have "reusable (id_gen t) = butlast (reusable (id_gen t)) @ [last (reusable (id_gen t))]"
        by simp
      ultimately show False
        using ids_distinct [OF ids] by (metis distinct_append disjoint_iff list.set_intros(1))
    qed
    have "id_item itc \<noteq> r" if "heap ?t c = Some itc" for c itc
    proof (cases "c = ?b")
      case True
      with that \<open>r \<noteq> ?i\<close> show ?thesis by (auto simp: h')
    next
      case False
      with that have "heap t c = Some itc" by (simp add: h')
      from ids_reusable_free [OF ids r this] show ?thesis .
    qed
    with ids_reusable [OF ids r] nx show ?thesis
      by (simp add: g')
  qed
  from nx have p3: "0 \<le> sint (next_id (id_gen ?t))"
    by (simp add: g')
  show ?thesis
    unfolding ids_ok_def using p1 p2 p3 p4 p5 p6 by blast
qed

lemma created_bins:
  assumes bins: "bins_ok t" and v: "valid_index (table t) (hf (mask_tbl t) k)"
  shows "bins_ok (created hf t k nc)"
proof -
  let ?t = "created hf t k nc"
  let ?idx = "hf (mask_tbl t) k"
  let ?n = "nat (sint ?idx)"
  from v have n: "?n < length (table t)"
    by (simp add: valid_index_def)
  from bins have len: "length (table t) < 2 ^ 31" "length (new_bin t) = length (table t)"
    and d: "distinct (used_bins t)"
    and vu: "\<forall>b \<in> set (used_bins t). valid_index (table t) b"
    and iff: "\<forall>i < length (table t). new_bin t ! i \<longleftrightarrow> (\<forall>b \<in> set (used_bins t). nat (sint b) \<noteq> i)"
    and ne: "\<forall>i < length (table t). table t ! i \<noteq> None \<longrightarrow> \<not> new_bin t ! i"
    unfolding bins_ok_def by blast+
  have u': "set (used_bins ?t) = insert ?idx (set (used_bins t))"
  proof (cases "new_bin t ! ?n")
    case True
    then show ?thesis by (simp add: created_fields)
  next
    case False
    with iff n have "\<exists>b \<in> set (used_bins t). nat (sint b) = ?n"
      by blast
    then obtain b where b: "b \<in> set (used_bins t)" "nat (sint b) = ?n"
      by blast
    from vu b(1) have "0 \<le> sint b"
      by (auto simp: valid_index_def)
    moreover from v have "0 \<le> sint ?idx"
      by (simp add: valid_index_def)
    ultimately have "sint b = sint ?idx"
      using b(2) by linarith
    then have "b = ?idx"
      by (rule signed_word_eqI)
    with b(1) False show ?thesis
      by (auto simp: created_fields)
  qed
  have p3: "distinct (used_bins ?t)"
  proof (cases "new_bin t ! ?n")
    case True
    with iff n have "?idx \<notin> set (used_bins t)"
      by blast
    with d True show ?thesis
      by (simp add: created_fields)
  next
    case False
    with d show ?thesis
      by (simp add: created_fields)
  qed
  have p4: "\<forall>b \<in> set (used_bins ?t). valid_index (table ?t) b"
    using vu v unfolding u' by (simp add: created_fields valid_index_def)
  have p5: "new_bin ?t ! i \<longleftrightarrow> (\<forall>b \<in> set (used_bins ?t). nat (sint b) \<noteq> i)"
    if "i < length (table t)" for i
  proof (cases "i = ?n")
    case True
    with n len show ?thesis
      unfolding u' by (simp add: created_fields)
  next
    case False
    with iff that show ?thesis
      unfolding u' by (simp add: created_fields)
  qed
  have p6: "\<not> new_bin ?t ! i" if "i < length (table t)" "table ?t ! i \<noteq> None" for i
  proof (cases "i = ?n")
    case True
    with n len show ?thesis
      by (simp add: created_fields)
  next
    case False
    with ne that show ?thesis
      by (simp add: created_fields)
  qed
  have l': "length (table ?t) = length (table t)" "length (new_bin ?t) = length (table t)"
    using len by (simp_all add: created_fields)
  show ?thesis
    unfolding bins_ok_def l' using len(1) p3 p4 p5 p6 by blast
qed

lemma wf_counters:
  "wf_table hf (t\<lparr>nqueries := q, ncollisions := c\<rparr>) \<longleftrightarrow> wf_table hf t"
  by (simp add: wf_table_def buckets_def ids_ok_def bins_ok_def)

lemma created_wf:
  assumes wf: "wf_table hf t" and v: "valid_index (table t) (hf (mask_tbl t) k)"
    and nf: "\<forall>a it. heap t a = Some it \<longrightarrow> key it \<noteq> k"
    and ne: "\<not> ids_exhausted t"
  shows "wf_table hf (created hf t k nc)"
proof -
  from wf obtain bk where bk: "buckets hf t bk" and ids: "ids_ok t" and bins: "bins_ok t"
    and brk: "\<forall>a. heap t a \<noteq> None \<longrightarrow> a < brk t"
    by (auto simp: wf_table_def)
  have "found (heap t) k (bk (nat (sint (hf (mask_tbl t) k)))) = None"
    unfolding found_None_iff using nf by (auto dest!: key_at_SomeD)
  from created_buckets [of hf t bk k nc, OF bk brk v this] created_ids [OF ids brk ne, of hf k nc]
    created_bins [of t hf k nc, OF bins v] brk
  show ?thesis
    unfolding wf_table_def by (auto simp: created_fields)
qed

text \<open>What \<^verbatim>\<open>Get\<close> and \<open>Peek\<close> do on a well-formed table.\<close>

lemma Get_key_wf_cases:
  assumes wf: "wf_table hf t" and v: "valid_index (table t) (hf (mask_tbl t) k)"
  shows "(\<exists>a it nc. heap t a = Some it \<and> key it = k \<and>
            Get_key hf t k = Some (Inr (a, t\<lparr>nqueries := nqueries t + 1, ncollisions := nc\<rparr>))) \<or>
         ((\<forall>a it. heap t a = Some it \<longrightarrow> key it \<noteq> k) \<and>
          (\<exists>nc. Get_key hf t k =
             (if ids_exhausted t then Some (Inl InvalidAccess)
              else Some (Inr (brk t, created hf t k nc)))))"
proof -
  from wf obtain bk where bk: "buckets hf t bk" and ids: "ids_ok t" and bins: "bins_ok t"
    by (auto simp: wf_table_def)
  let ?n = "nat (sint (hf (mask_tbl t) k))"
  show ?thesis
  proof (cases "found (heap t) k (bk ?n)")
    case None
    from buckets_found_None [of hf t bk k, OF bk None]
      Get_key_create [of hf t bk k, OF bk ids bins v None]
    show ?thesis by blast
  next
    case (Some a)
    from found_SomeD [OF Some] obtain it where "heap t a = Some it" "key it = k"
      by (auto dest: key_at_SomeD)
    with Get_key_found [of hf t bk k a, OF bk v Some] show ?thesis
      by blast
  qed
qed

subsection \<open>Reachable tables are well-formed\<close>

lemma Get_key_invalid:
  "\<not> valid_index (table t) (hf (mask_tbl t) k) \<Longrightarrow> Get_key hf t k = Some (Inl InvalidAccess)"
  by (simp add: Get_key_def at_def)

lemma Peek_key_invalid:
  "\<not> valid_index (table t) (hf (mask_tbl t) k) \<Longrightarrow> Peek_key hf t k = Some (Inl InvalidAccess)"
  by (simp add: Peek_key_def at_def)

lemma Get_key_preserves:
  assumes wf: "wf_table hf t" and get: "Get_key hf t k = Some (Inr (a, t'))"
  shows "wf_table hf t'"
proof -
  have v: "valid_index (table t) (hf (mask_tbl t) k)"
    using get Get_key_invalid [of t hf k] by auto
  from Get_key_wf_cases [OF wf v] show ?thesis
  proof (elim disjE exE conjE)
    fix b it nc
    assume "Get_key hf t k = Some (Inr (b, t\<lparr>nqueries := nqueries t + 1, ncollisions := nc\<rparr>))"
    with get have "t' = t\<lparr>nqueries := nqueries t + 1, ncollisions := nc\<rparr>"
      by simp
    with wf show ?thesis
      by (simp only: wf_counters)
  next
    fix nc
    assume nf: "\<forall>a it. heap t a = Some it \<longrightarrow> key it \<noteq> k"
      and g: "Get_key hf t k = (if ids_exhausted t then Some (Inl InvalidAccess)
                else Some (Inr (brk t, created hf t k nc)))"
    from g get have ne: "\<not> ids_exhausted t" and t': "t' = created hf t k nc"
      by (auto split: if_splits)
    from created_wf [OF wf v nf ne] t' show ?thesis
      by simp
  qed
qed

lemma Peek_key_preserves:
  assumes wf: "wf_table hf t" and peek: "Peek_key hf t k = Some (Inr (r, t'))"
  shows "wf_table hf t'"
proof -
  have v: "valid_index (table t) (hf (mask_tbl t) k)"
    using peek Peek_key_invalid [of t hf k] by auto
  from wf obtain bk where bk: "buckets hf t bk"
    by (auto simp: wf_table_def)
  from Peek_key_wf [of hf t bk k, OF bk v] peek wf show ?thesis
    by (auto simp: wf_counters)
qed

lemma Delete_preserves:
  assumes wf: "wf_table hf t" and del: "Delete hf t a = Some (Inr t')"
  shows "wf_table hf t'"
proof -
  from del obtain it where "heap t a = Some it"
    by (cases "heap t a") (auto simp: Delete_def)
  from Delete_wf [OF wf this] del show ?thesis
    by auto
qed

lemma HashTable_wf:
  assumes "HashTable sz = Inr t"
  shows "wf_table hf t"
proof -
  from assms have t: "t = \<lparr>heap = Map.empty, brk = 0,
                table = replicate (nat (sint sz)) None,
                mask_tbl = sz - 1,
                id_gen = IdGenerator_init,
                id_to_item = [],
                used_bins = [],
                new_bin = replicate (nat (sint sz)) True,
                nqueries = 0, ncollisions = 0\<rparr>"
    by (auto simp: HashTable_def Let_def split: if_splits)
  have "nat (sint sz) < 2 ^ 31"
    using sint_lt [of sz] by (simp add: nat_less_iff)
  then have "bins_ok t"
    by (simp add: t bins_ok_def)
  moreover have "buckets hf t (\<lambda>i. [])"
    by (simp add: t buckets_def)
  moreover have "ids_ok t"
    by (simp add: t ids_ok_def IdGenerator_init_def)
  ultimately show ?thesis
    unfolding wf_table_def by (auto simp: t)
qed

lemma reach_wf: "reach hf t \<Longrightarrow> wf_table hf t"
proof (induction rule: reach.induct)
  case (reach_new sz t)
  then show ?case by (rule HashTable_wf)
next
  case (reach_Get t k a t')
  then show ?case by (auto intro: Get_key_preserves)
next
  case (reach_Peek t k r t')
  then show ?case by (auto intro: Peek_key_preserves)
next
  case (reach_Delete t a t')
  then show ?case by (auto intro: Delete_preserves)
qed

lemma Get_key_total: "wf_table hf t \<Longrightarrow> \<exists>r. Get_key hf t k = Some r"
  using Get_key_wf_cases [of hf t k] Get_key_invalid [of t hf k] by (cases "valid_index (table t) (hf (mask_tbl t) k)") auto

lemma Peek_key_total: "wf_table hf t \<Longrightarrow> \<exists>r. Peek_key hf t k = Some r"
proof (cases "valid_index (table t) (hf (mask_tbl t) k)")
  case True
  assume "wf_table hf t"
  then obtain bk where "buckets hf t bk" by (auto simp: wf_table_def)
  from Peek_key_wf [of hf t bk k, OF this True] show ?thesis by simp
next
  case False
  then show ?thesis by (simp add: Peek_key_invalid)
qed

subsection \<open>The size of a new table\<close>

text \<open>
  C7: the constructor should abort exactly when the size is not a power of two. Its test
  \<^verbatim>\<open>size & (size - 1)\<close> is zero for the size 0 too: 0 is not a power of two, and the
  constructor accepts it. The table it builds has no bucket at all, and the mask - 1
  keeps every bit of the hash value, so that the first \<^verbatim>\<open>Get\<close> reads outside the
  bucket array.
\<close>

theorem C7_size_zero_accepted:
  "HashTable 0 = Inr ex_size0 \<and> Get2 ex_size0 1 2 = Some (Inl InvalidAccess)"
  by (simp add: HashTable_def ex_size0_def IdGenerator_init_def get_eval)

subsection \<open>Iteration\<close>

text \<open>
  C6: a fresh iterator should visit every live item once. \<^verbatim>\<open>Iterator::next\<close> begins
  with the test \<^verbatim>\<open>next_bin >= used_bins.Size()\<close>, and \<^verbatim>\<open>next_bin\<close> already counts the
  bucket the iterator is in: in the last touched bucket the test holds, and the iterator
  stops after the head of that chain. In the table of size 1 that holds the items of
  \<^verbatim>\<open>Get(1,2)\<close> and \<^verbatim>\<open>Get(3,4)\<close>, at the addresses 0 and 1, the traversal visits the
  item at address 1 only; the item at address 0 is live and never visited.
\<close>

theorem C6_iterator_skips_rest_of_last_bucket:
  "HashTable 1 = Inr ex_empty1 \<and>
   Get2 ex_empty1 1 2 = Some (Inr (0, ex_one1)) \<and>
   Get2 ex_one1 3 4 = Some (Inr (1, ex_two1)) \<and>
   visit_all ex_two1 = Some (Inr [1]) \<and>
   heap ex_two1 0 = Some \<lparr>id_item = 0, key = (1, 2), next_item = None\<rparr>"
  by (simp add: HashTable_def IdGenerator_init_def get_eval iter_eval
      ex_empty1_def ex_one1_def ex_two1_def)

subsection \<open>Order of the two keys\<close>

lemma swap_gt_commute: "swap_gt p1 p2 = swap_gt p2 p1"
proof -
  have "p1 = p2" if "\<not> p2 <s p1" "\<not> p1 <s p2"
    using that by (auto simp: word_sless_alt intro: signed_word_eqI)
  then show ?thesis
    by (auto simp: swap_gt_def word_sless_alt)
qed

lemma Get2_Get_key: "Get2 t p1 p2 = Get_key hash2 t (swap_gt p1 p2)"
  by (simp add: Get2_def split: prod.splits)

lemma Peek2_Peek_key: "Peek2 t p1 p2 = Peek_key hash2 t (swap_gt p1 p2)"
  by (simp add: Peek2_def split: prod.splits)

lemma reach_ex_empty1: "reach hash2 ex_empty1"
  by (rule reach_new [of 1]) (simp add: HashTable_def ex_empty1_def IdGenerator_init_def)

lemma reach_ex_one1: "reach hash2 ex_one1"
proof (rule reach_Get [OF reach_ex_empty1])
  show "Get_key hash2 ex_empty1 (1, 2) = Some (Inr (0, ex_one1))"
    by (simp add: get_eval ex_empty1_def ex_one1_def)
qed

lemma reach_ex_two1: "reach hash2 ex_two1"
proof (rule reach_Get [OF reach_ex_one1])
  show "Get_key hash2 ex_one1 (3, 4) = Some (Inr (1, ex_two1))"
    by (simp add: get_eval ex_one1_def ex_two1_def)
qed

text \<open>
  C1: \<^verbatim>\<open>Get(p1,p2)\<close> and \<^verbatim>\<open>Get(p2,p1)\<close> return the same item and leave the same table,
  in any table state, and so do the two calls of \<^verbatim>\<open>Peek\<close>: both orders give the same
  ordered key before the hash value is taken and the chain is searched. This holds for
  equal arguments too. On a table that a program can reach, the calls return.
\<close>

theorem C1_Get_order_independent:
  "Get2 t p1 p2 = Get2 t p2 p1 \<and> Peek2 t p1 p2 = Peek2 t p2 p1 \<and>
   (reach hash2 t \<longrightarrow> (\<exists>r. Get2 t p1 p2 = Some r) \<and> (\<exists>r. Peek2 t p1 p2 = Some r))"
proof (intro conjI impI)
  show "Get2 t p1 p2 = Get2 t p2 p1"
    by (simp only: Get2_Get_key swap_gt_commute [of p1 p2])
  show "Peek2 t p1 p2 = Peek2 t p2 p1"
    by (simp only: Peek2_Peek_key swap_gt_commute [of p1 p2])
next
  assume "reach hash2 t"
  then have wf: "wf_table hash2 t"
    by (rule reach_wf)
  from Get_key_total [OF wf] show "\<exists>r. Get2 t p1 p2 = Some r"
    by (simp only: Get2_Get_key)
  from Peek_key_total [OF wf] show "\<exists>r. Peek2 t p1 p2 = Some r"
    by (simp only: Peek2_Peek_key)
qed

text \<open>The table of size 1 that holds the item with the key \<open>(1, 2)\<close>, asked for \<open>(2, 1)\<close>.\<close>

theorem C1_witness:
  "reach hash2 ex_one1 \<and> Get2 ex_one1 2 1 = Get2 ex_one1 1 2 \<and>
   Get2 ex_one1 2 1 = Some (Inr (0, ex_one1\<lparr>nqueries := 2\<rparr>))"
  using C1_Get_order_independent [of ex_one1 2 1] reach_ex_one1
  by (simp add: get_eval ex_one1_def)

subsection \<open>The three smallest of four keys\<close>

lemma sint_eq_iff: "sint (x :: int32) = sint y \<longleftrightarrow> x = y"
  by (auto intro: signed_word_eqI)

lemma sint_antisym: "sint (x :: int32) \<le> sint y \<Longrightarrow> sint y \<le> sint x \<Longrightarrow> x = y"
  by (auto intro: signed_word_eqI)

lemma sort3_sorted:
  "sort3 a b c = (x, y, z) \<Longrightarrow> [x, y, z] = sort_key sint [a, b, c]"
  unfolding sort3_def swap_gt_def word_sless_alt
  by (auto simp: Let_def not_less sint_eq_iff split: if_splits dest: sint_antisym)


lemma Get4_Get_key: "Get4 t p1 p2 p3 p4 = Get_key hash3 t (canon4 p1 p2 p3 p4)"
  by (simp add: Get4_def canon4_def split: prod.splits)

lemma Peek4_Peek_key: "Peek4 t p1 p2 p3 p4 = Peek_key hash3 t (canon4 p1 p2 p3 p4)"
  by (simp add: Peek4_def canon4_def split: prod.splits)




text \<open>The item \<^verbatim>\<open>Get\<close> returns has the key asked for, and \<^verbatim>\<open>Get\<close> leaves the other items alone.\<close>

lemma Get_key_result:
  assumes wf: "wf_table hf t" and get: "Get_key hf t k = Some (Inr (a, t'))"
  shows "(\<exists>it. heap t' a = Some it \<and> key it = k) \<and>
         (\<forall>c itc. heap t c = Some itc \<longrightarrow> heap t' c = Some itc)"
proof -
  have v: "valid_index (table t) (hf (mask_tbl t) k)"
    using get Get_key_invalid [of t hf k] by auto
  from wf have brk: "\<forall>a. heap t a \<noteq> None \<longrightarrow> a < brk t"
    by (simp add: wf_table_def)
  from Get_key_wf_cases [OF wf v] show ?thesis
  proof (elim disjE exE conjE)
    fix b it nc
    assume "heap t b = Some it" "key it = k"
      "Get_key hf t k = Some (Inr (b, t\<lparr>nqueries := nqueries t + 1, ncollisions := nc\<rparr>))"
    with get show ?thesis by auto
  next
    fix nc
    assume g: "Get_key hf t k = (if ids_exhausted t then Some (Inl InvalidAccess)
                else Some (Inr (brk t, created hf t k nc)))"
    from g get have t': "t' = created hf t k nc" "a = brk t"
      by (auto split: if_splits)
    have "heap t' c = Some itc" if "heap t c = Some itc" for c itc
    proof -
      from that brk have "c \<noteq> brk t" by fastforce
      with that show ?thesis by (simp add: t' created_fields)
    qed
    then show ?thesis
      by (simp add: t' created_fields)
  qed
qed

text \<open>\<^verbatim>\<open>Get\<close> at the key of a live item returns the item and changes the counters only.\<close>

lemma Get_key_present:
  assumes wf: "wf_table hf t" and live: "heap t a = Some it"
  shows "\<exists>nc. Get_key hf t (key it) =
           Some (Inr (a, t\<lparr>nqueries := nqueries t + 1, ncollisions := nc\<rparr>))"
proof -
  from wf obtain bk where bk: "buckets hf t bk"
    by (auto simp: wf_table_def)
  from Get_key_found [of hf t bk "key it" a, OF bk buckets_valid [OF bk live]
      buckets_found [OF bk live]]
  show ?thesis by blast
qed

lemma reach_Get4:
  "reach hash3 t \<Longrightarrow> Get4 t p1 p2 p3 p4 = Some (Inr (a, t')) \<Longrightarrow> reach hash3 t'"
  unfolding Get4_Get_key by (rule reach_Get)


lemma reach_ex4_empty1: "reach hash3 ex4_empty1"
  by (rule reach_new [of 1]) (simp add: HashTable_def ex4_empty1_def IdGenerator_init_def)


subsection \<open>Idempotence of Get\<close>

lemma reach_Get2:
  "reach hash2 t \<Longrightarrow> Get2 t p1 p2 = Some (Inr (a, t')) \<Longrightarrow> reach hash2 t'"
  unfolding Get2_Get_key by (rule reach_Get)

lemma reach_ex4_one1: "reach hash3 ex4_one1"
proof (rule reach_Get [OF reach_ex4_empty1])
  show "Get_key hash3 ex4_empty1 (2, 5, 7) = Some (Inr (0, ex4_one1))"
    by (simp add: get_eval ex4_empty1_def ex4_one1_def)
qed

text \<open>
  C3: \<^verbatim>\<open>Get\<close> is idempotent. On a reachable table that holds an item with the ordered
  key of the request, \<^verbatim>\<open>Get\<close> returns that very item, in either order of the two keys
  (in any order of the four keys), and the table it leaves differs in the two statistics
  counters only: no item is made, the store, the buckets, the touched-bucket list, the
  identifier index and the generator are the same. In particular a second \<^verbatim>\<open>Get\<close> with
  the same keys returns the item of the first.
\<close>

theorem C3_Get_idempotent:
  "(reach hash2 t \<and> heap t a = Some it \<and> key it = swap_gt p1 p2 \<longrightarrow>
      (\<exists>nc. Get2 t p1 p2 =
               Some (Inr (a, t\<lparr>nqueries := nqueries t + 1, ncollisions := nc\<rparr>)) \<and>
            Get2 t p2 p1 =
               Some (Inr (a, t\<lparr>nqueries := nqueries t + 1, ncollisions := nc\<rparr>)))) \<and>
   (reach hash2 t \<and> Get2 t p1 p2 = Some (Inr (a', t1)) \<longrightarrow>
      (\<exists>nc. Get2 t1 p1 p2 =
               Some (Inr (a', t1\<lparr>nqueries := nqueries t1 + 1, ncollisions := nc\<rparr>)))) \<and>
   (reach hash3 u \<and> heap u b = Some jt \<and> key jt = canon4 q1 q2 q3 q4 \<longrightarrow>
      (\<exists>nc. Get4 u q1 q2 q3 q4 =
               Some (Inr (b, u\<lparr>nqueries := nqueries u + 1, ncollisions := nc\<rparr>))))"
proof (intro conjI impI)
  assume a: "reach hash2 t \<and> heap t a = Some it \<and> key it = swap_gt p1 p2"
  then have wf: "wf_table hash2 t" by (auto intro: reach_wf)
  from a Get_key_present [OF wf, of a it]
  obtain nc where "Get_key hash2 t (swap_gt p1 p2) =
      Some (Inr (a, t\<lparr>nqueries := nqueries t + 1, ncollisions := nc\<rparr>))"
    by auto
  then show "\<exists>nc. Get2 t p1 p2 =
               Some (Inr (a, t\<lparr>nqueries := nqueries t + 1, ncollisions := nc\<rparr>)) \<and>
            Get2 t p2 p1 =
               Some (Inr (a, t\<lparr>nqueries := nqueries t + 1, ncollisions := nc\<rparr>))"
    unfolding Get2_Get_key swap_gt_commute [of p2 p1] by blast
next
  assume a: "reach hash2 t \<and> Get2 t p1 p2 = Some (Inr (a', t1))"
  then have wf: "wf_table hash2 t" by (auto intro: reach_wf)
  from a have g: "Get_key hash2 t (swap_gt p1 p2) = Some (Inr (a', t1))"
    by (simp only: Get2_Get_key)
  from Get_key_result [OF wf g] obtain it' where it': "heap t1 a' = Some it'"
    "key it' = swap_gt p1 p2" by blast
  from Get_key_present [OF Get_key_preserves [OF wf g] it'(1)] it'(2)
  show "\<exists>nc. Get2 t1 p1 p2 =
               Some (Inr (a', t1\<lparr>nqueries := nqueries t1 + 1, ncollisions := nc\<rparr>))"
    unfolding Get2_Get_key by simp
next
  assume a: "reach hash3 u \<and> heap u b = Some jt \<and> key jt = canon4 q1 q2 q3 q4"
  then have wf: "wf_table hash3 u" by (auto intro: reach_wf)
  from a Get_key_present [OF wf, of b jt]
  show "\<exists>nc. Get4 u q1 q2 q3 q4 =
               Some (Inr (b, u\<lparr>nqueries := nqueries u + 1, ncollisions := nc\<rparr>))"
    unfolding Get4_Get_key by auto
qed

text \<open>The tables that hold the items with the keys \<open>(1, 2)\<close> and \<open>(2, 5, 7)\<close>.\<close>

theorem C3_witness:
  "reach hash2 ex_one1 \<and>
   heap ex_one1 0 = Some \<lparr>id_item = 0, key = (1, 2), next_item = None\<rparr> \<and>
   swap_gt 2 1 = (1, 2) \<and>
   Get2 ex_one1 2 1 = Some (Inr (0, ex_one1\<lparr>nqueries := 2, ncollisions := 0\<rparr>)) \<and>
   Get2 ex_one1 1 2 = Some (Inr (0, ex_one1\<lparr>nqueries := 2, ncollisions := 0\<rparr>)) \<and>
   Get2 (ex_one1\<lparr>nqueries := 2, ncollisions := 0\<rparr>) 2 1 =
     Some (Inr (0, ex_one1\<lparr>nqueries := 3, ncollisions := 0\<rparr>)) \<and>
   reach hash3 ex4_one1 \<and>
   heap ex4_one1 0 = Some \<lparr>id_item = 0, key = (2, 5, 7), next_item = None\<rparr> \<and>
   canon4 9 7 5 2 = (2, 5, 7) \<and>
   Get4 ex4_one1 9 7 5 2 = Some (Inr (0, ex4_one1\<lparr>nqueries := 2, ncollisions := 0\<rparr>))"
proof -
  have g: "Get2 ex_one1 2 1 = Some (Inr (0, ex_one1\<lparr>nqueries := 2, ncollisions := 0\<rparr>))"
    by (simp add: get_eval ex_one1_def)
  have h: "heap ex_one1 0 = Some \<lparr>id_item = 0, key = (1, 2), next_item = None\<rparr>"
    "swap_gt 2 1 = (1, 2)"
    "heap ex4_one1 0 = Some \<lparr>id_item = 0, key = (2, 5, 7), next_item = None\<rparr>"
    "canon4 9 7 5 2 = (2, 5, 7)"
    by (simp_all add: ex_one1_def ex4_one1_def swap_gt_def canon4_def sort4_def sort3_def
        word_sless_alt)
  from C3_Get_idempotent [where t = ex_one1 and a = 0
      and it = "\<lparr>id_item = 0, key = (1, 2), next_item = None\<rparr>" and ?p1.0 = 2 and ?p2.0 = 1
      and a' = 0 and ?t1.0 = "ex_one1\<lparr>nqueries := 2, ncollisions := 0\<rparr>"
      and u = ex4_one1 and b = 0
      and jt = "\<lparr>id_item = 0, key = (2, 5, 7), next_item = None\<rparr>"
      and ?q1.0 = 9 and ?q2.0 = 7 and ?q3.0 = 5 and ?q4.0 = 2]
    reach_ex_one1 reach_ex4_one1 g h
  show ?thesis
    by (simp add: get_eval ex_one1_def ex4_one1_def)
qed

subsection \<open>Delete\<close>

lemma chain_next:
  "is_chain h p as \<Longrightarrow> c \<in> set as \<Longrightarrow> h c = Some itc \<Longrightarrow> next_item itc = Some d \<Longrightarrow>
   d \<in> set as"
proof (induction as arbitrary: p)
  case Nil
  then show ?case by simp
next
  case (Cons a as)
  then obtain it where it: "p = Some a" "h a = Some it" "is_chain h (next_item it) as"
    by (auto split: option.splits)
  show ?case
  proof (cases "c = a")
    case True
    with Cons.prems it have "is_chain h (Some d) as"
      by simp
    then show ?thesis
      by (cases as) auto
  next
    case False
    with Cons.prems have "c \<in> set as" by simp
    from Cons.IH [OF it(3) this Cons.prems(3,4)] show ?thesis by simp
  qed
qed

text \<open>No bucket and no item of a well-formed table points to a cell that is not in the store.\<close>

lemma wf_no_dangling:
  assumes wf: "wf_table hf t" and free: "heap t a = None"
  shows "Some a \<notin> set (table t) \<and> (\<forall>c itc. heap t c = Some itc \<longrightarrow> next_item itc \<noteq> Some a)"
proof (intro conjI allI impI notI)
  from wf obtain bk where bk: "buckets hf t bk"
    by (auto simp: wf_table_def)
  {
    assume "Some a \<in> set (table t)"
    then obtain i where i: "i < length (table t)" "table t ! i = Some a"
      by (auto simp: in_set_conv_nth)
    from buckets_chain [OF bk i(1)] i(2) have "a \<in> set (bk i)"
      by (cases "bk i") auto
    from chain_in_heap [OF buckets_chain [OF bk i(1)] this] free show False
      by simp
  }
  {
    fix c itc assume c: "heap t c = Some itc" "next_item itc = Some a"
    let ?n = "nat (sint (hf (mask_tbl t) (key itc)))"
    from buckets_valid [OF bk c(1)] have n: "?n < length (table t)"
      by (simp add: valid_index_def)
    from chain_next [OF buckets_chain [OF bk n] buckets_mem [OF bk c(1)] c]
    have "a \<in> set (bk ?n)" .
    from chain_in_heap [OF buckets_chain [OF bk n] this] free show False
      by simp
  }
qed

lemma Peek_key_absent:
  assumes wf: "wf_table hf t" and v: "valid_index (table t) (hf (mask_tbl t) k)"
    and nf: "\<forall>c itc. heap t c = Some itc \<longrightarrow> key itc \<noteq> k"
  shows "\<exists>u. Peek_key hf t k = Some (Inr (None, u))"
proof -
  from wf obtain bk where bk: "buckets hf t bk"
    by (auto simp: wf_table_def)
  have "found (heap t) k (bk (nat (sint (hf (mask_tbl t) k)))) = None"
    unfolding found_None_iff using nf by (auto dest!: key_at_SomeD)
  with Peek_key_wf [of hf t bk k, OF bk v] show ?thesis
    by simp
qed

lemma Delete_then_Peek:
  assumes wf: "wf_table hf t" and live: "heap t a = Some it"
  shows "\<exists>t'. Delete hf t a = Some (Inr t') \<and> wf_table hf t' \<and>
      (\<exists>u. Peek_key hf t' (key it) = Some (Inr (None, u))) \<and>
      Peek_id t' (id_item it) = Inr None \<and>
      heap t' a = None \<and> Some a \<notin> set (table t') \<and>
      (\<forall>c itc. heap t' c = Some itc \<longrightarrow> next_item itc \<noteq> Some a) \<and>
      id_gen t' = IdGenerator_Reuse (id_gen t) (id_item it)"
proof -
  from wf obtain bk where bk: "buckets hf t bk" and ids: "ids_ok t"
    by (auto simp: wf_table_def)
  from Delete_wf [OF wf live] obtain t' where
    del: "Delete hf t a = Some (Inr t')" and wf': "wf_table hf t'" and ha: "heap t' a = None"
    and same: "\<forall>c. c \<noteq> a \<longrightarrow> key_at (heap t') c = key_at (heap t) c"
    and len: "length (table t') = length (table t)" and m: "mask_tbl t' = mask_tbl t"
    and ids': "id_to_item t' = (id_to_item t)[nat (sint (id_item it)) := None]"
    and g': "id_gen t' = IdGenerator_Reuse (id_gen t) (id_item it)"
    by blast
  have v: "valid_index (table t') (hf (mask_tbl t') (key it))"
    using buckets_valid [OF bk live] len m by (simp add: valid_index_def)
  have nf: "key itc \<noteq> key it" if "heap t' c = Some itc" for c itc
  proof
    assume e: "key itc = key it"
    from that ha have "c \<noteq> a" by auto
    with same have "key_at (heap t') c = key_at (heap t) c" by simp
    from key_transfer [OF this that] obtain it0 where "heap t c = Some it0" "key it0 = key itc"
      by blast
    with buckets_key_unique [OF bk live, of c it0] e \<open>c \<noteq> a\<close> show False
      by simp
  qed
  then have "\<forall>c itc. heap t' c = Some itc \<longrightarrow> key itc \<noteq> key it"
    by blast
  from Peek_key_absent [OF wf' v this]
  have p: "\<exists>u. Peek_key hf t' (key it) = Some (Inr (None, u))" .
  from ids_valid [OF ids live] have "Peek_id t' (id_item it) = Inr None"
    by (simp add: Peek_id_def at_def ids' valid_index_def)
  with del wf' p ha g' wf_no_dangling [OF wf' ha] show ?thesis
    by blast
qed

lemmas delete_eval = Delete_def Delete_loop.simps load_def store_loc_def hash2_def hash3_def
  IdGenerator_Reuse_def array_defs

lemma Delete_ex_two1: "Delete hash2 ex_two1 0 = Some (Inr ex_deleted1)"
  by (simp add: delete_eval ex_two1_def ex_deleted1_def fun_eq_iff)

lemma Delete_ex4_one1: "Delete hash3 ex4_one1 0 = Some (Inr ex4_deleted1)"
  by (simp add: delete_eval ex4_one1_def ex4_deleted1_def fun_eq_iff)

text \<open>
  C4: on a reachable table, \<^verbatim>\<open>Delete\<close> of a live item returns, and after it \<^verbatim>\<open>Peek\<close> with
  the keys of the item, in any order, and \<^verbatim>\<open>Peek\<close> with its identifier return \<^verbatim>\<open>NULL\<close>.
  The item is gone from the store, no bucket and no item points to it any more, its
  identifier slot is cleared and its identifier is released to the generator.
\<close>

theorem C4_Delete_then_Peek_absent:
  "(reach hash2 t \<and> heap t a = Some it \<and> key it = swap_gt p1 p2 \<longrightarrow>
      (\<exists>t'. Delete hash2 t a = Some (Inr t') \<and>
         (\<exists>u. Peek2 t' p1 p2 = Some (Inr (None, u))) \<and>
         (\<exists>u. Peek2 t' p2 p1 = Some (Inr (None, u))) \<and>
         Peek_id t' (id_item it) = Inr None \<and>
         heap t' a = None \<and> Some a \<notin> set (table t') \<and>
         (\<forall>c itc. heap t' c = Some itc \<longrightarrow> next_item itc \<noteq> Some a) \<and>
         id_gen t' = IdGenerator_Reuse (id_gen t) (id_item it))) \<and>
   (reach hash3 u \<and> heap u b = Some jt \<and> key jt = canon4 q1 q2 q3 q4 \<longrightarrow>
      (\<exists>u'. Delete hash3 u b = Some (Inr u') \<and>
         (\<exists>v. Peek4 u' q1 q2 q3 q4 = Some (Inr (None, v))) \<and>
         Peek_id u' (id_item jt) = Inr None \<and>
         heap u' b = None \<and> Some b \<notin> set (table u') \<and>
         (\<forall>c itc. heap u' c = Some itc \<longrightarrow> next_item itc \<noteq> Some b) \<and>
         id_gen u' = IdGenerator_Reuse (id_gen u) (id_item jt)))"
proof (intro conjI impI)
  assume a: "reach hash2 t \<and> heap t a = Some it \<and> key it = swap_gt p1 p2"
  then have wf: "wf_table hash2 t" and live: "heap t a = Some it"
    and k: "key it = swap_gt p1 p2" "key it = swap_gt p2 p1"
    by (auto intro: reach_wf simp: swap_gt_commute [of p2 p1])
  from Delete_then_Peek [OF wf live] show "\<exists>t'. Delete hash2 t a = Some (Inr t') \<and>
         (\<exists>u. Peek2 t' p1 p2 = Some (Inr (None, u))) \<and>
         (\<exists>u. Peek2 t' p2 p1 = Some (Inr (None, u))) \<and>
         Peek_id t' (id_item it) = Inr None \<and>
         heap t' a = None \<and> Some a \<notin> set (table t') \<and>
         (\<forall>c itc. heap t' c = Some itc \<longrightarrow> next_item itc \<noteq> Some a) \<and>
         id_gen t' = IdGenerator_Reuse (id_gen t) (id_item it)"
    unfolding Peek2_Peek_key k [symmetric] by blast
next
  assume a: "reach hash3 u \<and> heap u b = Some jt \<and> key jt = canon4 q1 q2 q3 q4"
  then have wf: "wf_table hash3 u" and live: "heap u b = Some jt"
    and k: "key jt = canon4 q1 q2 q3 q4"
    by (auto intro: reach_wf)
  from Delete_then_Peek [OF wf live] show "\<exists>u'. Delete hash3 u b = Some (Inr u') \<and>
         (\<exists>v. Peek4 u' q1 q2 q3 q4 = Some (Inr (None, v))) \<and>
         Peek_id u' (id_item jt) = Inr None \<and>
         heap u' b = None \<and> Some b \<notin> set (table u') \<and>
         (\<forall>c itc. heap u' c = Some itc \<longrightarrow> next_item itc \<noteq> Some b) \<and>
         id_gen u' = IdGenerator_Reuse (id_gen u) (id_item jt)"
    unfolding Peek4_Peek_key k [symmetric] by blast
qed

text \<open>
  \<^verbatim>\<open>Delete\<close> of the item with the key \<open>(1, 2)\<close> in the table with two items, and of the
  only item of the four-key table.
\<close>

theorem C4_witness:
  "reach hash2 ex_two1 \<and>
   heap ex_two1 0 = Some \<lparr>id_item = 0, key = (1, 2), next_item = None\<rparr> \<and>
   swap_gt 2 1 = (1, 2) \<and>
   Delete hash2 ex_two1 0 = Some (Inr ex_deleted1) \<and>
   Peek2 ex_deleted1 2 1 = Some (Inr (None, ex_deleted1\<lparr>nqueries := 3, ncollisions := 2\<rparr>)) \<and>
   Peek2 ex_deleted1 1 2 = Some (Inr (None, ex_deleted1\<lparr>nqueries := 3, ncollisions := 2\<rparr>)) \<and>
   Peek_id ex_deleted1 0 = Inr None \<and>
   reach hash3 ex4_one1 \<and>
   heap ex4_one1 0 = Some \<lparr>id_item = 0, key = (2, 5, 7), next_item = None\<rparr> \<and>
   canon4 9 7 5 2 = (2, 5, 7) \<and>
   Delete hash3 ex4_one1 0 = Some (Inr ex4_deleted1) \<and>
   Peek4 ex4_deleted1 9 7 5 2 = Some (Inr (None, ex4_deleted1\<lparr>nqueries := 2\<rparr>)) \<and>
   Peek_id ex4_deleted1 0 = Inr None"
proof -
  have h: "heap ex_two1 0 = Some \<lparr>id_item = 0, key = (1, 2), next_item = None\<rparr>"
    "swap_gt 2 1 = (1, 2)"
    "heap ex4_one1 0 = Some \<lparr>id_item = 0, key = (2, 5, 7), next_item = None\<rparr>"
    "canon4 9 7 5 2 = (2, 5, 7)"
    by (simp_all add: ex_two1_def ex4_one1_def swap_gt_def canon4_def sort4_def sort3_def
        word_sless_alt)
  from C4_Delete_then_Peek_absent [where t = ex_two1 and a = 0
      and it = "\<lparr>id_item = 0, key = (1, 2), next_item = None\<rparr>" and ?p1.0 = 2 and ?p2.0 = 1
      and u = ex4_one1 and b = 0
      and jt = "\<lparr>id_item = 0, key = (2, 5, 7), next_item = None\<rparr>"
      and ?q1.0 = 9 and ?q2.0 = 7 and ?q3.0 = 5 and ?q4.0 = 2]
    reach_ex_two1 reach_ex4_one1 h Delete_ex_two1 Delete_ex4_one1
  show ?thesis
    by (simp add: Peek2_def Peek4_def Peek_key_def Peek_id_def get_eval
        ex_deleted1_def ex4_deleted1_def)
qed

subsection \<open>Identifiers\<close>

lemma Get2_ex_deleted1: "Get2 ex_deleted1 6 5 = Some (Inr (2, ex_reused1))"
  by (simp add: get_eval ex_deleted1_def ex_reused1_def)

text \<open>After a \<^verbatim>\<open>Delete\<close>, the next item that \<^verbatim>\<open>Get\<close> makes has the identifier just released.\<close>

lemma Delete_then_Get_reuses:
  assumes wf: "wf_table hf t" and live: "heap t a = Some it"
    and del: "Delete hf t a = Some (Inr t1)"
    and get: "Get_key hf t1 k = Some (Inr (b, t2))" and new: "heap t1 b = None"
  shows "\<exists>itb. heap t2 b = Some itb \<and> id_item itb = id_item it"
proof -
  from Delete_wf [OF wf live] del have wf1: "wf_table hf t1"
    and g1: "id_gen t1 = IdGenerator_Reuse (id_gen t) (id_item it)"
    by auto
  have v: "valid_index (table t1) (hf (mask_tbl t1) k)"
    using get Get_key_invalid [of t1 hf k] by auto
  have ne: "\<not> ids_exhausted t1"
    by (simp add: ids_exhausted_def g1 IdGenerator_Reuse_def Append_def)
  from Get_key_wf_cases [OF wf1 v] show ?thesis
  proof (elim disjE exE conjE)
    fix c itc nc
    assume "heap t1 c = Some itc"
      "Get_key hf t1 k = Some (Inr (c, t1\<lparr>nqueries := nqueries t1 + 1, ncollisions := nc\<rparr>))"
    with get new show ?thesis by auto
  next
    fix nc
    assume "Get_key hf t1 k = (if ids_exhausted t1 then Some (Inl InvalidAccess)
                else Some (Inr (brk t1, created hf t1 k nc)))"
    with get ne have "b = brk t1" "t2 = created hf t1 k nc"
      by auto
    then show ?thesis
      by (simp add: created_fields g1 IdGenerator_Get_def IdGenerator_Reuse_def Append_def)
  qed
qed

text \<open>
  C5: in a reachable table two live items never have the same identifier, and the
  identifier that \<^verbatim>\<open>Delete\<close> has released is the one the next new item gets: a \<^verbatim>\<open>Get\<close> after
  the \<^verbatim>\<open>Delete\<close> that returns an item which was not in the store gives it the identifier
  of the deleted item.
\<close>

theorem C5_ids_unique_and_reused:
  "reach hf t \<longrightarrow>
     (heap t a = Some ita \<and> heap t b = Some itb \<and> a \<noteq> b \<longrightarrow> id_item ita \<noteq> id_item itb) \<and>
     (heap t a = Some ita \<and> Delete hf t a = Some (Inr t1) \<and>
      Get_key hf t1 k = Some (Inr (c, t2)) \<and> heap t1 c = None \<longrightarrow>
        (\<exists>itc. heap t2 c = Some itc \<and> id_item itc = id_item ita))"
proof (intro impI conjI)
  assume r: "reach hf t"
  then have wf: "wf_table hf t" by (rule reach_wf)
  then have ids: "ids_ok t" by (simp add: wf_table_def)
  {
    assume "heap t a = Some ita \<and> heap t b = Some itb \<and> a \<noteq> b"
    with ids_unique [OF ids, of a ita b itb] show "id_item ita \<noteq> id_item itb"
      by auto
  }
  {
    assume "heap t a = Some ita \<and> Delete hf t a = Some (Inr t1) \<and>
      Get_key hf t1 k = Some (Inr (c, t2)) \<and> heap t1 c = None"
    then have "heap t a = Some ita" "Delete hf t a = Some (Inr t1)"
      "Get_key hf t1 k = Some (Inr (c, t2))" "heap t1 c = None"
      by simp_all
    with wf show "\<exists>itc. heap t2 c = Some itc \<and> id_item itc = id_item ita"
      by (rule Delete_then_Get_reuses)
  }
qed

text \<open>
  In the table with the identifiers 0 and 1, \<^verbatim>\<open>Delete\<close> of the item with the identifier 0
  and then \<^verbatim>\<open>Get(5,6)\<close>: the new item, at the address 2, has the identifier 0.
\<close>

theorem C5_witness:
  "reach hash2 ex_two1 \<and>
   heap ex_two1 0 = Some \<lparr>id_item = 0, key = (1, 2), next_item = None\<rparr> \<and>
   heap ex_two1 1 = Some \<lparr>id_item = 1, key = (3, 4), next_item = Some 0\<rparr> \<and>
   (0 :: addr) \<noteq> 1 \<and> (0 :: int32) \<noteq> 1 \<and>
   Delete hash2 ex_two1 0 = Some (Inr ex_deleted1) \<and>
   Get_key hash2 ex_deleted1 (5, 6) = Some (Inr (2, ex_reused1)) \<and>
   heap ex_deleted1 2 = None \<and>
   heap ex_reused1 2 = Some \<lparr>id_item = 0, key = (5, 6), next_item = Some 1\<rparr>"
proof -
  have g: "Get_key hash2 ex_deleted1 (5, 6) = Some (Inr (2, ex_reused1))"
    using Get2_ex_deleted1 by (simp add: Get2_Get_key swap_gt_def word_sless_alt)
  have h: "heap ex_two1 0 = Some \<lparr>id_item = 0, key = (1, 2), next_item = None\<rparr>"
    "heap ex_two1 1 = Some \<lparr>id_item = 1, key = (3, 4), next_item = Some 0\<rparr>"
    "heap ex_deleted1 2 = None"
    by (simp_all add: ex_two1_def ex_deleted1_def)
  from C5_ids_unique_and_reused [where hf = hash2 and t = ex_two1 and a = 0
      and ita = "\<lparr>id_item = 0, key = (1, 2), next_item = None\<rparr>" and b = 1
      and itb = "\<lparr>id_item = 1, key = (3, 4), next_item = Some 0\<rparr>"
      and ?t1.0 = ex_deleted1 and k = "(5, 6)" and c = 2 and ?t2.0 = ex_reused1]
    reach_ex_two1 h g Delete_ex_two1
  show ?thesis
    by (simp add: ex_reused1_def)
qed

subsection \<open>Peek by identifier\<close>

text \<open>
  C10: \<^verbatim>\<open>Peek(id)\<close> reads the identifier index without a check. On a reachable table and
  for an identifier inside the array it returns the live item with that identifier, or
  \<^verbatim>\<open>NULL\<close> when no live item has it; outside the array the read is invalid. \<^verbatim>\<open>Get\<close> never
  shrinks the array and fills the new slots, but for the one of the new item, with
  \<^verbatim>\<open>NULL\<close>; \<^verbatim>\<open>Delete\<close> keeps the length.
\<close>

theorem C10_Peek_id_unchecked:
  "reach hf t \<longrightarrow>
     (valid_index (id_to_item t) i \<longrightarrow>
        (\<exists>r. Peek_id t i = Inr r \<and>
           (case r of
              Some a \<Rightarrow> (\<exists>it. heap t a = Some it \<and> id_item it = i)
            | None \<Rightarrow> (\<forall>a it. heap t a = Some it \<longrightarrow> id_item it \<noteq> i)))) \<and>
     (\<not> valid_index (id_to_item t) i \<longrightarrow> Peek_id t i = Inl InvalidAccess) \<and>
     (Get_key hf t k = Some (Inr (a, t')) \<longrightarrow>
        length (id_to_item t) \<le> length (id_to_item t') \<and>
        (\<forall>j. length (id_to_item t) \<le> j \<and> j < length (id_to_item t') \<and>
              id_to_item t' ! j \<noteq> Some a \<longrightarrow> id_to_item t' ! j = None)) \<and>
     (Delete hf t b = Some (Inr t'') \<longrightarrow> length (id_to_item t'') = length (id_to_item t))"
proof (intro impI conjI)
  assume r: "reach hf t"
  then have wf: "wf_table hf t" by (rule reach_wf)
  then have ids: "ids_ok t" by (simp add: wf_table_def)
  {
    assume v: "valid_index (id_to_item t) i"
    let ?n = "nat (sint i)"
    from v have p: "Peek_id t i = Inr (id_to_item t ! ?n)" and n: "?n < length (id_to_item t)"
      and i0: "0 \<le> sint i"
      by (simp_all add: Peek_id_def at_def valid_index_def)
    have "case id_to_item t ! ?n of
              Some a \<Rightarrow> (\<exists>it. heap t a = Some it \<and> id_item it = i)
            | None \<Rightarrow> (\<forall>a it. heap t a = Some it \<longrightarrow> id_item it \<noteq> i)"
    proof (cases "id_to_item t ! ?n")
      case None
      have "id_item it \<noteq> i" if "heap t a = Some it" for a it
        using ids_slot [OF ids that] None by auto
      with None show ?thesis by simp
    next
      case (Some a)
      from ids_live [OF ids n Some] obtain it where it: "heap t a = Some it"
        "sint (id_item it) = int ?n" by blast
      with i0 have "sint (id_item it) = sint i" by simp
      then have "id_item it = i" by (rule signed_word_eqI)
      with it Some show ?thesis by simp
    qed
    with p show "\<exists>r. Peek_id t i = Inr r \<and>
           (case r of
              Some a \<Rightarrow> (\<exists>it. heap t a = Some it \<and> id_item it = i)
            | None \<Rightarrow> (\<forall>a it. heap t a = Some it \<longrightarrow> id_item it \<noteq> i))"
      by simp
  }
  {
    assume "\<not> valid_index (id_to_item t) i"
    then show "Peek_id t i = Inl InvalidAccess"
      by (simp add: Peek_id_def at_def)
  }
  {
    assume get: "Get_key hf t k = Some (Inr (a, t'))"
    have v: "valid_index (table t) (hf (mask_tbl t) k)"
      using get Get_key_invalid [of t hf k] by auto
    from Get_key_wf_cases [OF wf v]
    have "length (id_to_item t) \<le> length (id_to_item t') \<and>
        (\<forall>j. length (id_to_item t) \<le> j \<and> j < length (id_to_item t') \<and>
              id_to_item t' ! j \<noteq> Some a \<longrightarrow> id_to_item t' ! j = None)"
    proof (elim disjE exE conjE)
      fix c itc nc
      assume "Get_key hf t k = Some (Inr (c, t\<lparr>nqueries := nqueries t + 1, ncollisions := nc\<rparr>))"
      with get show ?thesis by auto
    next
      fix nc
      assume "Get_key hf t k = (if ids_exhausted t then Some (Inl InvalidAccess)
                else Some (Inr (brk t, created hf t k nc)))"
      with get have e: "a = brk t" "t' = created hf t k nc"
        by (auto split: if_splits)
      show ?thesis
        unfolding e created_fields
        by (auto simp: nth_list_update nth_append)
    qed
    then show "length (id_to_item t) \<le> length (id_to_item t')"
      and "\<forall>j. length (id_to_item t) \<le> j \<and> j < length (id_to_item t') \<and>
              id_to_item t' ! j \<noteq> Some a \<longrightarrow> id_to_item t' ! j = None"
      by blast+
  }
  {
    assume del: "Delete hf t b = Some (Inr t'')"
    then obtain it where "heap t b = Some it"
      by (cases "heap t b") (auto simp: Delete_def)
    from Delete_wf [OF wf this] del show "length (id_to_item t'') = length (id_to_item t)"
      by auto
  }
qed

text \<open>
  The table with the array \<open>[None, Some 1]\<close> at the identifiers 0, 1 and 2, and the growth
  of the array from \<^verbatim>\<open>Get(3,4)\<close> to \<^verbatim>\<open>Delete\<close>.
\<close>

theorem C10_witness:
  "reach hash2 ex_deleted1 \<and> valid_index (id_to_item ex_deleted1) 0 \<and>
   Peek_id ex_deleted1 0 = Inr None \<and>
   valid_index (id_to_item ex_deleted1) 1 \<and> Peek_id ex_deleted1 1 = Inr (Some 1) \<and>
   heap ex_deleted1 1 = Some \<lparr>id_item = 1, key = (3, 4), next_item = None\<rparr> \<and>
   \<not> valid_index (id_to_item ex_deleted1) 2 \<and> Peek_id ex_deleted1 2 = Inl InvalidAccess \<and>
   reach hash2 ex_one1 \<and> Get_key hash2 ex_one1 (3, 4) = Some (Inr (1, ex_two1)) \<and>
   length (id_to_item ex_one1) = 1 \<and> length (id_to_item ex_two1) = 2 \<and>
   reach hash2 ex_two1 \<and> Delete hash2 ex_two1 0 = Some (Inr ex_deleted1) \<and>
   length (id_to_item ex_deleted1) = 2"
proof -
  have r: "reach hash2 ex_deleted1"
    using reach_ex_two1 Delete_ex_two1 by (rule reach_Delete)
  have g: "Get_key hash2 ex_one1 (3, 4) = Some (Inr (1, ex_two1))"
    by (simp add: get_eval ex_one1_def ex_two1_def)
  have v: "valid_index (id_to_item ex_deleted1) 0" "valid_index (id_to_item ex_deleted1) 1"
    "\<not> valid_index (id_to_item ex_deleted1) 2"
    by (simp_all add: valid_index_def ex_deleted1_def)
  from C10_Peek_id_unchecked [where hf = hash2 and t = ex_deleted1 and i = 0]
    C10_Peek_id_unchecked [where hf = hash2 and t = ex_deleted1 and i = 1]
    C10_Peek_id_unchecked [where hf = hash2 and t = ex_deleted1 and i = 2]
    C10_Peek_id_unchecked [where hf = hash2 and t = ex_one1 and k = "(3, 4)" and a = 1
      and t' = ex_two1]
    C10_Peek_id_unchecked [where hf = hash2 and t = ex_two1 and b = 0 and t'' = ex_deleted1]
    r v g reach_ex_one1 reach_ex_two1 Delete_ex_two1
  show ?thesis
    by (simp add: Peek_id_def at_def valid_index_def ex_deleted1_def ex_one1_def ex_two1_def)
qed

subsection \<open>Delete of an item that is not in its bucket\<close>

text \<open>
  C8: when the chain of the bucket that the stored key of an item hashes to does not hold
  the item, \<^verbatim>\<open>Delete\<close> does not return: it ends in \<^verbatim>\<open>mfem_error\<close>, and the table at that
  moment is the table it was called on, so that no slot of \<^verbatim>\<open>id_to_item\<close> has been cleared
  and no identifier has been released to the generator. \<^verbatim>\<open>Delete(int id)\<close> with the
  identifier of such an item does the same.
\<close>

theorem C8_Delete_absent_aborts:
  assumes "heap t a = Some it"
    and "at (table t) (hf (mask_tbl t) (key it)) = Inr p"
    and "is_chain (heap t) p as"
    and "a \<notin> set as"
  shows "Delete hf t a = Some (Inl (MfemError ''HashTable<>::Delete: item not found!'', t)) \<and>
         (\<forall>t'. Delete hf t a \<noteq> Some (Inr t')) \<and>
         (Peek_id t i = Inr (Some a) \<longrightarrow>
            Delete_id hf t i = Some (Inl (MfemError ''HashTable<>::Delete: item not found!'', t)))"
proof -
  have "load (heap t) (table t) (Bin (hf (mask_tbl t) (key it))) = Inr p"
    using assms(2) by (simp add: load_def)
  from Delete_loop_absent [OF this assms(3,4)] assms(1)
  have d: "Delete hf t a = Some (Inl (MfemError ''HashTable<>::Delete: item not found!'', t))"
    by (simp add: Delete_def)
  then show ?thesis
    by (simp add: Delete_id_def)
qed

text \<open>
  The item at the address 7 is in the store and in no chain; it has the identifier 0. After
  the failed \<^verbatim>\<open>Delete\<close>, by pointer or by identifier, the slot 0 of \<^verbatim>\<open>id_to_item\<close> is
  still set and the generator has no identifier to reuse.
\<close>

theorem C8_witness:
  "heap ex_foreign1 7 = Some \<lparr>id_item = 0, key = (1, 2), next_item = None\<rparr> \<and>
   at (table ex_foreign1) (hash2 (mask_tbl ex_foreign1) (1, 2)) = Inr (Some 1) \<and>
   is_chain (heap ex_foreign1) (Some 1) [1, 0] \<and> 7 \<notin> set [1, 0 :: addr] \<and>
   Delete hash2 ex_foreign1 7 =
     Some (Inl (MfemError ''HashTable<>::Delete: item not found!'', ex_foreign1)) \<and>
   Peek_id ex_foreign1 0 = Inr (Some 7) \<and>
   Delete_id hash2 ex_foreign1 0 =
     Some (Inl (MfemError ''HashTable<>::Delete: item not found!'', ex_foreign1)) \<and>
   id_to_item ex_foreign1 = [Some 7, Some 1] \<and>
   id_gen ex_foreign1 = \<lparr>next_id = 2, reusable = []\<rparr>"
proof -
  have h: "heap ex_foreign1 7 = Some \<lparr>id_item = 0, key = (1, 2), next_item = None\<rparr>"
    by (simp add: ex_foreign1_def)
  have a: "at (table ex_foreign1)
             (hash2 (mask_tbl ex_foreign1) (key \<lparr>id_item = 0, key = (1, 2), next_item = None\<rparr>)) =
           Inr (Some 1)"
    by (simp add: ex_foreign1_def array_defs hash2_def)
  have c: "is_chain (heap ex_foreign1) (Some 1) [1, 0]"
    by (simp add: ex_foreign1_def)
  have n: "7 \<notin> set [1, 0 :: addr]"
    by simp
  have i: "id_to_item ex_foreign1 = [Some 7, Some 1]"
    "id_gen ex_foreign1 = \<lparr>next_id = 2, reusable = []\<rparr>"
    by (simp_all add: ex_foreign1_def)
  have p: "Peek_id ex_foreign1 0 = Inr (Some 7)"
    by (simp add: Peek_id_def array_defs ex_foreign1_def)
  note w = C8_Delete_absent_aborts [where hf = hash2 and t = ex_foreign1 and a = 7
      and it = "\<lparr>id_item = 0, key = (1, 2), next_item = None\<rparr>" and p = "Some 1"
      and as = "[1, 0]" and i = 0, OF h a c n]
  from w have d: "Delete hash2 ex_foreign1 7 =
     Some (Inl (MfemError ''HashTable<>::Delete: item not found!'', ex_foreign1))"
    by (rule conjunct1)
  from w p have e: "Delete_id hash2 ex_foreign1 0 =
     Some (Inl (MfemError ''HashTable<>::Delete: item not found!'', ex_foreign1))"
    by blast
  from h a c n d p e i show ?thesis
    by simp
qed

subsection \<open>The iterator and the destructor\<close>











subsection \<open>The statistics counters\<close>














subsection \<open>Which sizes the constructor accepts\<close>

lemma pow2_and: "n < 32 \<Longrightarrow> (2 ^ n :: int32) AND (2 ^ n - 1) = 0"
proof -
  have "(2 ^ n :: int32) - 1 = mask n"
    by (simp add: mask_eq_exp_minus_1)
  moreover have "(2 ^ n :: int32) AND mask n = 0"
    by (rule bit_eqI) (auto simp: bit_simps)
  ultimately show ?thesis by simp
qed

lemma nat_and_pred_zero: "0 < u \<Longrightarrow> (u :: nat) AND (u - 1) = 0 \<Longrightarrow> \<exists>n. u = 2 ^ n"
proof (induction u rule: less_induct)
  case (less u)
  show ?case
  proof (cases "u = 1")
    case True
    then have "u = 2 ^ 0" by simp
    then show ?thesis by blast
  next
    case False
    with less.prems(1) have u2: "2 \<le> u" by simp
    let ?k = "u div 2"
    have k: "0 < ?k" "?k < u" using u2 by simp_all
    have unf: "u AND (u - 1) = (u mod 2) * ((u - 1) mod 2) + 2 * (?k AND ((u - 1) div 2))"
      using u2 by (subst and_nat_unfold) simp
    show ?thesis
    proof (cases "even u")
      case True
      then have "(u - 1) div 2 = ?k - 1"
        using u2 by (auto elim!: evenE)
      with unf True less.prems(2) have "?k AND (?k - 1) = 0"
        by simp
      from less.IH [OF k(2) k(1) this] obtain n where "?k = 2 ^ n" by blast
      with True have "u = 2 ^ Suc n" by auto
      then show ?thesis by blast
    next
      case False
      then have "(u - 1) div 2 = ?k"
        by (auto elim!: oddE)
      with unf less.prems(2) k(1) show ?thesis
        by simp
    qed
  qed
qed

lemma word_and_pred_zero:
  assumes "(x :: int32) AND (x - 1) = 0" "x \<noteq> 0"
  shows "\<exists>n < 32. x = 2 ^ n"
proof -
  from assms(2) have u0: "0 < unat x"
    by (simp add: unat_gt_0)
  from assms(2) have "unat (x - 1) = unat x - 1"
    by (simp add: unat_minus_one)
  moreover have "unat (x AND (x - 1)) = unat x AND unat (x - 1)"
    by (simp add: unsigned_and_eq)
  ultimately have "unat x AND (unat x - 1) = 0"
    using assms(1) by simp
  from nat_and_pred_zero [OF u0 this] obtain n where n: "unat x = 2 ^ n" by blast
  have "unat x < 2 ^ 32"
    using unsigned_less [of x, where 'a = nat] by simp
  with n have "(2 :: nat) ^ n < 2 ^ 32"
    by (simp only:)
  then have "n < 32"
    by (rule power_less_imp_less_exp [rotated]) simp
  moreover have "x = 2 ^ n"
  proof -
    have "x = of_nat (unat x)" by simp
    also have "\<dots> = 2 ^ n" unfolding n by simp
    finally show ?thesis .
  qed
  ultimately show ?thesis by blast
qed

text \<open>
  The constructor calls \<^verbatim>\<open>mfem_error\<close> exactly for the sizes whose bit pattern is neither 0
  nor a single bit; for the powers of two from \<open>2 ^ 0\<close> to \<open>2 ^ 30\<close> it builds the empty
  table of that size.
\<close>

lemma HashTable_mfem_error_iff:
  "(HashTable sz :: error + 'k HashTable) =
     Inl (MfemError ''Hash table size must be a power of two.'') \<longleftrightarrow>
   sz \<noteq> 0 \<and> (\<forall>n < 32. sz \<noteq> 2 ^ n)"
proof -
  have "sz AND (sz - 1) = 0 \<longleftrightarrow> sz = 0 \<or> (\<exists>n < 32. sz = 2 ^ n)"
    using word_and_pred_zero [of sz] pow2_and by auto
  then show ?thesis
    by (auto simp: HashTable_def Let_def)
qed

lemma sint_pow2: "n < 31 \<Longrightarrow> sint (2 ^ n :: int32) = 2 ^ n"
proof -
  assume n: "n < 31"
  then have "(2 :: int) ^ n < 2 ^ 31"
    by (intro power_strict_increasing) simp_all
  have "(2 ^ n :: int32) = word_of_int (2 ^ n)"
    by simp
  then have "sint (2 ^ n :: int32) = signed_take_bit 31 (2 ^ n)"
    by (simp only: signed_of_int) simp
  also have "\<dots> = 2 ^ n"
  proof (rule signed_take_bit_int_eq_self)
    have "(0 :: int) \<le> 2 ^ n"
      by simp
    moreover have "- (2 ^ 31) \<le> (0 :: int)"
      by simp
    ultimately show "- (2 ^ 31) \<le> (2 :: int) ^ n"
      by (rule order_trans [rotated])
    show "(2 :: int) ^ n < 2 ^ 31"
      by fact
  qed
  finally show ?thesis .
qed

lemma HashTable_power_of_two:
  assumes "n < 31"
  shows "HashTable (2 ^ n) =
     Inr \<lparr>heap = Map.empty, brk = 0, table = replicate (2 ^ n) None, mask_tbl = 2 ^ n - 1,
          id_gen = IdGenerator_init, id_to_item = [], used_bins = [],
          new_bin = replicate (2 ^ n) True, nqueries = 0, ncollisions = 0\<rparr>"
proof -
  from assms have "n < 32" by simp
  from pow2_and [OF this] sint_pow2 [OF assms] show ?thesis
    by (simp add: HashTable_def Let_def nat_power_eq)
qed

end
